theory Spec2Isabelle
  imports Main
begin

section \<open>The Sudoku engine of sudokunista/sudokugame.py\<close>

text \<open>
  The class \<open>Sudoku\<close> keeps an 81 element board list (0 is an uncommitted square), three
  lists of nine sets holding the values not yet used in each row, column and box, and a
  log string. Squares and values are Python integers; every entry point asserts
  \<open>sq in range(81)\<close> and \<open>value in range(10)\<close>, so both are modelled as naturals and the
  upper bounds stay as branches. A failed \<open>assert\<close> raises \<open>AssertionError\<close>, which no
  caller in the repository catches: the call sequence ends there, so an operation returns
  either the error or its result together with the new state.
\<close>

datatype error = AssertionError | ValueError | OutOfFuel

text \<open>
  \<open>AssertionError\<close> and \<open>ValueError\<close> are the exceptions of the source. \<open>OutOfFuel\<close>
  is not a Python exception: the loops \<open>while True\<close> and the recursion of the solvers
  are given a step budget, and \<open>OutOfFuel\<close> says that the budget was too small to see the
  call return.
\<close>

record sudoku =
  board :: "nat list"
  rows :: "nat set list"
  cols :: "nat set list"
  boxes :: "nat set list"
  log :: string

text \<open>
  A Python set is iterated (and popped) in the order of its hash table, which the
  language leaves open. The order is a parameter of the model: a function from a set to
  the list of its members, each member once (\<open>iter_ok\<close>). \<open>set.pop()\<close> takes the
  member that an iteration would meet first.
\<close>

type_synonym iter_order = "nat set \<Rightarrow> nat list"

definition iter_ok :: "iter_order \<Rightarrow> bool" where
  "iter_ok en \<longleftrightarrow> (\<forall>S. finite S \<longrightarrow> set (en S) = S \<and> distinct (en S))"

definition pop :: "iter_order \<Rightarrow> nat set \<Rightarrow> nat" where
  "pop en S = hd (en S)"

subsection \<open>The coordinate tables built by the constructor\<close>

text \<open>
  The constructor fills the table \<open>rcb\<close> (row, column and box of each square) and the
  table \<open>box_sq_map\<close> (the squares of each box, in ascending order). The getters
  \<open>get_row\<close>, \<open>get_sqs_in_row\<close> and their kin assert the range of their argument;
  every call inside the class passes a square below 81 or a unit number below 9, so
  they are modelled as total functions.
\<close>

definition rcb :: "nat \<Rightarrow> nat \<times> nat \<times> nat" where
  "rcb sq = (let r = sq div 9; c = sq mod 9; b = 3 * (r div 3) + (c div 3) in (r, c, b))"

definition get_row :: "nat \<Rightarrow> nat" where
  "get_row sq = fst (rcb sq)"

definition get_col :: "nat \<Rightarrow> nat" where
  "get_col sq = fst (snd (rcb sq))"

definition get_box :: "nat \<Rightarrow> nat" where
  "get_box sq = snd (snd (rcb sq))"

definition get_sqs_in_row :: "nat \<Rightarrow> nat list" where
  "get_sqs_in_row row = [row * 9 ..< row * 9 + 9]"

definition get_sqs_in_col :: "nat \<Rightarrow> nat list" where
  "get_sqs_in_col col = map (\<lambda>k. col + 9 * k) [0 ..< (81 - col + 8) div 9]"

definition get_sqs_in_box :: "nat \<Rightarrow> nat list" where
  "get_sqs_in_box box = filter (\<lambda>sq. get_box sq = box) [0 ..< 81]"

definition init :: sudoku where
  "init = \<lparr> board = replicate 81 0,
            rows = replicate 9 {1..9},
            cols = replicate 9 {1..9},
            boxes = replicate 9 {1..9},
            log = [] \<rparr>"

definition nfilled :: "sudoku \<Rightarrow> nat" where
  "nfilled s = length (filter (\<lambda>i. board s ! i \<noteq> 0) [0 ..< 81])"

subsection \<open>fill and unfill\<close>

definition unfill :: "nat \<Rightarrow> sudoku \<Rightarrow> error + sudoku" where
  "unfill sq s =
     (if \<not> sq < 81 then Inl AssertionError
      else if board s ! sq = 0 then Inr s
      else
        let v = board s ! sq; (r, c, b) = rcb sq in
        if v \<in> rows s ! r then Inl AssertionError
        else if v \<in> cols s ! c then Inl AssertionError
        else if v \<in> boxes s ! b then Inl AssertionError
        else Inr (s\<lparr> board := (board s)[sq := 0],
                     rows := (rows s)[r := insert v (rows s ! r)],
                     cols := (cols s)[c := insert v (cols s ! c)],
                     boxes := (boxes s)[b := insert v (boxes s ! b)] \<rparr>))"

definition fill :: "nat \<Rightarrow> nat \<Rightarrow> sudoku \<Rightarrow> error + (nat set \<times> sudoku)" where
  "fill sq v s =
     (if \<not> sq < 81 then Inl AssertionError
      else if \<not> v < 10 then Inl AssertionError
      else
        case (if board s ! sq \<noteq> 0 then unfill sq s else Inr s) of
          Inl e \<Rightarrow> Inl e
        | Inr s1 \<Rightarrow>
            if v = 0 then Inr ({}, s1)
            else if board s1 ! sq \<noteq> 0 then Inl AssertionError
            else
              let (r, c, b) = rcb sq in
              if v \<notin> rows s1 ! r then Inl AssertionError
              else if v \<notin> cols s1 ! c then Inl AssertionError
              else if v \<notin> boxes s1 ! b then Inl AssertionError
              else
                let s2 = s1\<lparr> board := (board s1)[sq := v],
                              rows := (rows s1)[r := rows s1 ! r - {v}],
                              cols := (cols s1)[c := cols s1 ! c - {v}],
                              boxes := (boxes s1)[b := boxes s1 ! b - {v}] \<rparr>;
                    completed =
                      (if rows s2 ! r = {} then set (get_sqs_in_row r) else {}) \<union>
                      (if cols s2 ! c = {} then set (get_sqs_in_col c) else {}) \<union>
                      (if boxes s2 ! b = {} then set (get_sqs_in_box b) else {})
                in Inr (completed, s2))"

text \<open>
  A Python set is finite, so \<open>len(self.rows[r]) == 0\<close> is written \<open>rows s2 ! r = {}\<close>.
\<close>

text \<open>A \<open>for\<close> loop over a list whose body may raise: the first error ends the loop.\<close>

fun for_each :: "'a list \<Rightarrow> ('a \<Rightarrow> 'st \<Rightarrow> error + 'st) \<Rightarrow> 'st \<Rightarrow> error + 'st" where
  "for_each [] body st = Inr st"
| "for_each (x # xs) body st =
     (case body x st of Inl e \<Rightarrow> Inl e | Inr st' \<Rightarrow> for_each xs body st')"

subsection \<open>preload and \_\_str\_\_\<close>

datatype pyarg = PyStr string | PyList "nat list" | PyOther

definition int_of_char :: "char \<Rightarrow> error + nat" where
  "int_of_char ch =
     (let k = (of_char ch :: nat) in
      if 48 \<le> k \<and> k \<le> 57 then Inr (k - 48) else Inl ValueError)"

fun map_int :: "string \<Rightarrow> error + nat list" where
  "map_int [] = Inr []"
| "map_int (ch # rest) =
     (case int_of_char ch of
        Inl e \<Rightarrow> Inl e
      | Inr d \<Rightarrow> (case map_int rest of Inl e \<Rightarrow> Inl e | Inr ds \<Rightarrow> Inr (d # ds)))"

definition preload_list :: "nat list \<Rightarrow> sudoku \<Rightarrow> error + sudoku" where
  "preload_list bd s =
     for_each [0 ..< length bd]
       (\<lambda>i s. if bd ! i \<noteq> 0
               then (case fill i (bd ! i) s of Inl e \<Rightarrow> Inl e | Inr (_, s') \<Rightarrow> Inr s')
               else unfill i s) s"

definition preload :: "pyarg \<Rightarrow> sudoku \<Rightarrow> error + (int \<times> sudoku)" where
  "preload bd s =
     (case (case bd of
              PyStr str \<Rightarrow>
                if length str = 81
                then (case map_int str of Inl e \<Rightarrow> Inl e | Inr l \<Rightarrow> Inr (PyList l))
                else Inr bd
            | _ \<Rightarrow> Inr bd) of
        Inl e \<Rightarrow> Inl e
      | Inr (PyList l) \<Rightarrow>
          (case preload_list l s of Inl e \<Rightarrow> Inl e | Inr s' \<Rightarrow> Inr (0, s'))
      | Inr _ \<Rightarrow> Inr (- 1, s))"

definition digit_char :: "nat \<Rightarrow> char" where
  "digit_char d = char_of (48 + d)"

fun str_nat :: "nat \<Rightarrow> string" where
  "str_nat n = (if n < 10 then [digit_char n] else str_nat (n div 10) @ [digit_char (n mod 10)])"

declare str_nat.simps [simp del]

definition to_str :: "sudoku \<Rightarrow> string" where
  "to_str s = fold (\<lambda>sq acc. acc @ str_nat sq) (board s) []"

subsection \<open>Options of a square, open squares\<close>

definition get_sq_options :: "nat \<Rightarrow> sudoku \<Rightarrow> nat set" where
  "get_sq_options sq s =
     (if board s ! sq \<noteq> 0 then {}
      else let (r, c, b) = rcb sq in rows s ! r \<inter> cols s ! c \<inter> boxes s ! b)"

definition get_opens :: "sudoku \<Rightarrow> nat list" where
  "get_opens s = filter (\<lambda>i. board s ! i = 0) [0 ..< 81]"

text \<open>
  \<open>list.sort\<close> is stable, and with \<open>reverse=True\<close> it still keeps the original order
  of elements with equal keys: it sorts the reversed list and reverses the result.
\<close>

definition get_opens_by_dof :: "bool \<Rightarrow> sudoku \<Rightarrow> nat list" where
  "get_opens_by_dof rv s =
     (let opens = map (\<lambda>i. (i, card (get_sq_options i s)))
                      (filter (\<lambda>i. board s ! i = 0) [0 ..< 81])
      in map fst (if rv then rev (sort_key snd (rev opens)) else sort_key snd opens))"

subsection \<open>The deduction passes\<close>

definition intersect_body :: "iter_order \<Rightarrow> nat \<Rightarrow> nat \<times> sudoku \<Rightarrow> error + (nat \<times> sudoku)" where
  "intersect_body en i = (\<lambda>(n, s).
     let options = get_sq_options i s in
     if card options = 1
     then (case fill i (pop en options) s of
             Inl e \<Rightarrow> Inl e
           | Inr (_, s') \<Rightarrow> Inr (n + 1, s'))
     else Inr (n, s))"

definition intersect :: "iter_order \<Rightarrow> sudoku \<Rightarrow> error + (nat \<times> sudoku)" where
  "intersect en s = for_each [0 ..< 81] (intersect_body en) (0, s)"

definition sub_opt1 :: "nat list \<Rightarrow> nat \<Rightarrow> sudoku \<Rightarrow> nat set" where
  "sub_opt1 squares sq1 s =
     fold (\<lambda>sq2 opt1. if board s ! sq2 \<noteq> 0 \<or> sq2 = sq1 then opt1
                       else opt1 - get_sq_options sq2 s)
          squares (get_sq_options sq1 s)"

definition sub_factor_body ::
    "iter_order \<Rightarrow> nat list \<Rightarrow> nat \<Rightarrow> nat \<times> sudoku \<Rightarrow> error + (nat \<times> sudoku)" where
  "sub_factor_body en squares sq1 = (\<lambda>(n, s).
     if board s ! sq1 \<noteq> 0 then Inr (n, s)
     else
       let opt1 = sub_opt1 squares sq1 s in
       if card opt1 = 1
       then (case fill sq1 (pop en opt1) s of
               Inl e \<Rightarrow> Inl e
             | Inr (_, s') \<Rightarrow> Inr (n + 1, s'))
       else Inr (n, s))"

definition sub_factor :: "iter_order \<Rightarrow> nat list \<Rightarrow> sudoku \<Rightarrow> error + (nat \<times> sudoku)" where
  "sub_factor en squares s = for_each squares (sub_factor_body en squares) (0, s)"

definition add_sub_factor ::
    "iter_order \<Rightarrow> nat list \<Rightarrow> nat \<times> sudoku \<Rightarrow> error + (nat \<times> sudoku)" where
  "add_sub_factor en squares = (\<lambda>(n, s).
     case sub_factor en squares s of
       Inl e \<Rightarrow> Inl e
     | Inr (k, s') \<Rightarrow> Inr (n + k, s'))"

definition subtract :: "iter_order \<Rightarrow> sudoku \<Rightarrow> error + (nat \<times> sudoku)" where
  "subtract en s =
     (case for_each [0 ..< 9] (\<lambda>box. add_sub_factor en (get_sqs_in_box box)) (0, s) of
        Inl e \<Rightarrow> Inl e
      | Inr st1 \<Rightarrow>
          (case for_each [0 ..< 9] (\<lambda>row. add_sub_factor en (get_sqs_in_row row)) st1 of
             Inl e \<Rightarrow> Inl e
           | Inr st2 \<Rightarrow>
               for_each [0 ..< 9] (\<lambda>col. add_sub_factor en (get_sqs_in_col col)) st2))"

subsection \<open>The solvers\<close>

text \<open>
  The loop \<open>for value in options: fill; if solve() == True: return True; unfill\<close> is
  shared by \<open>solve\<close> and \<open>hsolve\<close>; \<open>rec\<close> is the recursive call. The result
  \<open>(False, s)\<close> says that the loop ran to its end.
\<close>

fun try_values ::
    "(sudoku \<Rightarrow> error + (bool \<times> sudoku)) \<Rightarrow> nat \<Rightarrow> nat list \<Rightarrow> sudoku \<Rightarrow> error + (bool \<times> sudoku)" where
  "try_values rec sq [] s = Inr (False, s)"
| "try_values rec sq (v # rest) s =
     (case fill sq v s of
        Inl e \<Rightarrow> Inl e
      | Inr (_, s1) \<Rightarrow>
          (case rec s1 of
             Inl e \<Rightarrow> Inl e
           | Inr (True, s2) \<Rightarrow> Inr (True, s2)
           | Inr (False, s2) \<Rightarrow>
               (case unfill sq s2 of
                  Inl e \<Rightarrow> Inl e
                | Inr s3 \<Rightarrow> try_values rec sq rest s3)))"

fun solve :: "iter_order \<Rightarrow> nat \<Rightarrow> sudoku \<Rightarrow> error + (bool \<times> sudoku)" where
  "solve en 0 s = Inl OutOfFuel"
| "solve en (Suc fuel) s =
     (case get_opens_by_dof False s of
        [] \<Rightarrow> Inr (True, s)
      | sq # _ \<Rightarrow> try_values (\<lambda>s1. solve en fuel s1) sq (en (get_sq_options sq s)) s)"

text \<open>
  \<open>while True: n = pass(); if n == 0: break; t += n\<close>, with a budget for the number of
  passes.
\<close>

fun until_zero ::
    "nat \<Rightarrow> (sudoku \<Rightarrow> error + (nat \<times> sudoku)) \<Rightarrow> nat \<Rightarrow> sudoku \<Rightarrow> error + (nat \<times> sudoku)" where
  "until_zero 0 pass t s = Inl OutOfFuel"
| "until_zero (Suc fuel) pass t s =
     (case pass s of
        Inl e \<Rightarrow> Inl e
      | Inr (n, s') \<Rightarrow> if n = 0 then Inr (t, s') else until_zero fuel pass (t + n) s')"

text \<open>\<open>'{0:02}'.format(t)\<close>: at least two digits, padded with zeros.\<close>

definition fmt02 :: "nat \<Rightarrow> string" where
  "fmt02 t = (if t < 10 then CHR ''0'' # str_nat t else str_nat t)"

definition add_log :: "string \<Rightarrow> nat \<Rightarrow> sudoku \<Rightarrow> sudoku" where
  "add_log tag t s = (if t > 0 then s\<lparr> log := log s @ tag @ fmt02 t @ '' '' \<rparr> else s)"

text \<open>
  \<open>hsolve\<close> sets \<open>savelog\<close> twice: at its entry and again after the deduction passes.
  Nothing reads the first value, so the model has the second one only. The budget
  \<open>fuel\<close> bounds the depth of the recursion; each of the two \<open>while\<close> loops of a call
  gets the budget of that call.
\<close>

fun hsolve :: "iter_order \<Rightarrow> nat \<Rightarrow> sudoku \<Rightarrow> error + (bool \<times> sudoku)" where
  "hsolve en 0 s = Inl OutOfFuel"
| "hsolve en (Suc fuel) s =
     (let opens = get_opens s in
      if length opens = 0 then Inr (True, s)
      else
        case until_zero (Suc fuel) (intersect en) 0 s of
          Inl e \<Rightarrow> Inl e
        | Inr (t, sa) \<Rightarrow>
            (case until_zero (Suc fuel) (subtract en) 0 (add_log ''i'' t sa) of
               Inl e \<Rightarrow> Inl e
             | Inr (t', sb) \<Rightarrow>
                 let sc = add_log ''s'' t' sb;
                     open1 = get_opens_by_dof True sc;
                     savelog = log sc
                 in
                 (case open1 of
                    [] \<Rightarrow> Inr (True, sc)
                  | sq # _ \<Rightarrow>
                      (case try_values (\<lambda>s1. hsolve en fuel (s1\<lparr> log := savelog @ ''_r_ '' \<rparr>))
                              sq (en (get_sq_options sq sc)) sc of
                         Inl e \<Rightarrow> Inl e
                       | Inr (True, sd) \<Rightarrow> Inr (True, sd)
                       | Inr (False, sd) \<Rightarrow>
                           let se = sd\<lparr> log := savelog \<rparr>;
                               unwind = set opens - set (get_opens se)
                           in
                           (case for_each (en unwind) unfill se of
                              Inl e \<Rightarrow> Inl e
                            | Inr sf \<Rightarrow> Inr (False, sf))))))"

subsection \<open>Call sequences\<close>

text \<open>
  A client drives the board by \<open>fill\<close> and \<open>unfill\<close> calls. A sequence of calls is
  run from left to right; it ends at the first call that raises.
\<close>

datatype call = Fill nat nat | Unfill nat

fun apply_call :: "call \<Rightarrow> sudoku \<Rightarrow> error + sudoku" where
  "apply_call (Fill sq v) s = (case fill sq v s of Inl e \<Rightarrow> Inl e | Inr (_, s') \<Rightarrow> Inr s')"
| "apply_call (Unfill sq) s = unfill sq s"

definition apply_calls :: "call list \<Rightarrow> sudoku \<Rightarrow> error + sudoku" where
  "apply_calls cs s = for_each cs apply_call s"

section \<open>Specification vocabulary\<close>

text \<open>The values placed on the squares \<open>sqs\<close> of a board (0 is no value).\<close>

definition placed :: "nat list \<Rightarrow> nat list \<Rightarrow> nat set" where
  "placed bd sqs = set (map (\<lambda>sq. bd ! sq) sqs) - {0}"

text \<open>No value occurs twice on the squares \<open>sqs\<close>.\<close>

definition uniq :: "nat list \<Rightarrow> nat list \<Rightarrow> bool" where
  "uniq bd sqs \<longleftrightarrow> distinct (filter (\<lambda>v. v \<noteq> 0) (map (\<lambda>sq. bd ! sq) sqs))"

definition all_uniq :: "(nat \<Rightarrow> nat list) \<Rightarrow> nat list \<Rightarrow> bool" where
  "all_uniq sqs bd \<longleftrightarrow> (\<forall>k \<in> {0 ..< 9}. uniq bd (sqs k))"

text \<open>The uniqueness constraint of every row, column and box.\<close>

definition units_uniq :: "nat list \<Rightarrow> bool" where
  "units_uniq bd \<longleftrightarrow>
     all_uniq get_sqs_in_row bd \<and> all_uniq get_sqs_in_col bd \<and> all_uniq get_sqs_in_box bd"

text \<open>The lists have the lengths the constructor gives them.\<close>

definition shape :: "sudoku \<Rightarrow> bool" where
  "shape s \<longleftrightarrow>
     length (board s) = 81 \<and> length (rows s) = 9 \<and> length (cols s) = 9 \<and> length (boxes s) = 9"

text \<open>
  The candidate-set invariant: each of the nine sets of a kind of unit is \<open>{1..9}\<close> minus
  the values placed in its unit.
\<close>

definition cands_ok :: "(nat \<Rightarrow> nat list) \<Rightarrow> nat list \<Rightarrow> nat set list \<Rightarrow> bool" where
  "cands_ok sqs bd xs \<longleftrightarrow> (\<forall>k \<in> {0 ..< 9}. xs ! k = {1..9} - placed bd (sqs k))"

definition sets_ok :: "sudoku \<Rightarrow> bool" where
  "sets_ok s \<longleftrightarrow>
     cands_ok get_sqs_in_row (board s) (rows s) \<and>
     cands_ok get_sqs_in_col (board s) (cols s) \<and>
     cands_ok get_sqs_in_box (board s) (boxes s)"

definition well_formed :: "sudoku \<Rightarrow> bool" where
  "well_formed s \<longleftrightarrow>
     shape s \<and> (\<forall>i \<in> {0 ..< 81}. board s ! i < 10) \<and> sets_ok s \<and> units_uniq (board s)"

definition full :: "nat list \<Rightarrow> bool" where
  "full bd \<longleftrightarrow> (\<forall>i \<in> {0 ..< 81}. bd ! i \<noteq> 0)"

definition extends :: "nat list \<Rightarrow> nat list \<Rightarrow> bool" where
  "extends bd bd' \<longleftrightarrow> (\<forall>i \<in> {0 ..< 81}. bd ! i \<noteq> 0 \<longrightarrow> bd' ! i = bd ! i)"

text \<open>
  A legal completion of a board: 81 values from 1 to 9 that keep the given ones and repeat
  no value in a row, a column or a box.
\<close>

definition completion :: "nat list \<Rightarrow> nat list \<Rightarrow> bool" where
  "completion bd c \<longleftrightarrow>
     length c = 81 \<and> (\<forall>i \<in> {0 ..< 81}. c ! i < 10) \<and> full c \<and> units_uniq c \<and> extends bd c"

text \<open>
  A square's row, column or box set became empty between two states.
\<close>

definition became_empty :: "nat set list \<Rightarrow> nat set list \<Rightarrow> nat \<Rightarrow> bool" where
  "became_empty before after k \<longleftrightarrow> before ! k \<noteq> {} \<and> after ! k = {}"

text \<open>
  A search that follows squares with a single option only. It stops with no result at the
  first square that would need a choice; where it succeeds, \<open>solve\<close> takes the same path
  whatever the iteration order is.
\<close>

fun solve_forced :: "nat \<Rightarrow> sudoku \<Rightarrow> sudoku option" where
  "solve_forced 0 s = None"
| "solve_forced (Suc fuel) s =
     (case get_opens_by_dof False s of
        [] \<Rightarrow> Some s
      | sq # _ \<Rightarrow>
          let options = get_sq_options sq s in
          if card options = 1
          then (case fill sq (pop sorted_list_of_set options) s of
                  Inl e \<Rightarrow> None
                | Inr (_, s1) \<Rightarrow> solve_forced fuel s1)
          else None)"

text \<open>
  A kind of unit is given by the lists of its squares (\<open>sqs k\<close> for the unit number
  \<open>k\<close>) and by the map from a square to its unit number; \<open>fam\<close> says that the two
  agree.
\<close>

definition fam :: "(nat \<Rightarrow> nat list) \<Rightarrow> (nat \<Rightarrow> nat) \<Rightarrow> bool" where
  "fam sqs u \<longleftrightarrow>
     (\<forall>k < 9. set (sqs k) = {i. i < 81 \<and> u i = k} \<and> distinct (sqs k)) \<and> (\<forall>i < 81. u i < 9)"

text \<open>
  What one call of \<open>solve\<close> on the state \<open>s\<close> has to deliver: it returns; on success
  the final board is a legal completion of the board of \<open>s\<close>; on failure the state is
  the one of the call's entry and the board of \<open>s\<close> has no legal completion.
\<close>

definition search_ok :: "sudoku \<Rightarrow> error + (bool \<times> sudoku) \<Rightarrow> bool" where
  "search_ok s r \<longleftrightarrow>
     (\<exists>ok s'. r = Inr (ok, s') \<and>
        (if ok then well_formed s' \<and> completion (board s) (board s')
         else s' = s \<and> (\<nexists>c. completion (board s) c)))"

text \<open>
  What a deduction pass started in \<open>s0\<close> keeps: the board stays well formed, the values
  of \<open>s0\<close> stay where they are, and the log is not touched.
\<close>

definition keeps :: "sudoku \<Rightarrow> sudoku \<Rightarrow> bool" where
  "keeps s0 s \<longleftrightarrow> well_formed s \<and> extends (board s0) (board s) \<and> log s = log s0"

text \<open>
  A pass that reports \<open>n\<close> filled squares has closed at least \<open>n\<close> open squares of the
  board \<open>s0\<close> it started from.
\<close>

definition counted :: "sudoku \<Rightarrow> nat \<times> sudoku \<Rightarrow> bool" where
  "counted s0 st \<longleftrightarrow>
     keeps s0 (snd st) \<and> length (get_opens (snd st)) + fst st \<le> length (get_opens s0)"

text \<open>The text that \<open>hsolve\<close> appends to the log for a pass that filled \<open>t\<close> squares.\<close>

definition token :: "string \<Rightarrow> nat \<Rightarrow> string" where
  "token tag t = (if t > 0 then tag @ fmt02 t @ '' '' else [])"

section \<open>Concrete boards\<close>

text \<open>The board after the calls \<open>fill(0, 5); fill(10, 3); unfill(0); fill(80, 5)\<close>.\<close>

definition calls_state :: sudoku where
  "calls_state =
     init\<lparr> board := (board init)[10 := 3, 80 := 5],
           rows := (rows init)[1 := {1, 2, 4, 5, 6, 7, 8, 9}, 8 := {1, 2, 3, 4, 6, 7, 8, 9}],
           cols := (cols init)[1 := {1, 2, 4, 5, 6, 7, 8, 9}, 8 := {1, 2, 3, 4, 6, 7, 8, 9}],
           boxes := (boxes init)[0 := {1, 2, 4, 5, 6, 7, 8, 9}, 8 := {1, 2, 3, 4, 6, 7, 8, 9}] \<rparr>"

text \<open>
  A board with three empty squares: square 80 has the single option 9, the squares 0 and
  14 have no option at all. It is the board that \<open>preload\<close> builds from the string
  \<open>dead_end_str\<close>.
\<close>

definition dead_end_str :: string where
  "dead_end_str =
     ''034678912572190348198342567859761423426853791713924856961537284287419635345286170''"

definition dead_end :: sudoku where
  "dead_end =
     \<lparr> board =
         [0, 3, 4, 6, 7, 8, 9, 1, 2, 5, 7, 2, 1, 9, 0, 3, 4, 8, 1, 9, 8,
          3, 4, 2, 5, 6, 7, 8, 5, 9, 7, 6, 1, 4, 2, 3, 4, 2, 6, 8, 5, 3,
          7, 9, 1, 7, 1, 3, 9, 2, 4, 8, 5, 6, 9, 6, 1, 5, 3, 7, 2, 8, 4,
          2, 8, 7, 4, 1, 9, 6, 3, 5, 3, 4, 5, 2, 8, 6, 1, 7, 0],
       rows = [{5}, {6}, {}, {}, {}, {}, {}, {}, {9}],
       cols = [{6}, {}, {}, {}, {}, {5}, {}, {}, {9}],
       boxes = [{6}, {5}, {}, {}, {}, {}, {}, {}, {9}],
       log = [] \<rparr>"

text \<open>The example puzzle, the board that \<open>preload\<close> builds from it, and its solution.\<close>

definition classic_puzzle :: string where
  "classic_puzzle =
     ''530070000600195000098000060800060003400803001700020006060000280000419005000080079''"

definition classic_solution :: string where
  "classic_solution =
     ''534678912672195348198342567859761423426853791713924856961537284287419635345286179''"

definition classic_state :: sudoku where
  "classic_state =
     \<lparr> board =
         [5, 3, 0, 0, 7, 0, 0, 0, 0, 6, 0, 0, 1, 9, 5, 0, 0, 0, 0, 9, 8,
          0, 0, 0, 0, 6, 0, 8, 0, 0, 0, 6, 0, 0, 0, 3, 4, 0, 0, 8, 0, 3,
          0, 0, 1, 7, 0, 0, 0, 2, 0, 0, 0, 6, 0, 6, 0, 0, 0, 0, 2, 8, 0,
          0, 0, 0, 4, 1, 9, 0, 0, 5, 0, 0, 0, 0, 8, 0, 0, 7, 9],
       rows =
         [{1, 2, 4, 6, 8, 9}, {2, 3, 4, 7, 8}, {1, 2, 3, 4, 5, 7},
          {1, 2, 4, 5, 7, 9}, {2, 5, 6, 7, 9}, {1, 3, 4, 5, 8, 9},
          {1, 3, 4, 5, 7, 9}, {2, 3, 6, 7, 8}, {1, 2, 3, 4, 5, 6}],
       cols =
         [{1, 2, 3, 9}, {1, 2, 4, 5, 7, 8}, {1, 2, 3, 4, 5, 6, 7, 9},
          {2, 3, 5, 6, 7, 9}, {3, 4, 5}, {1, 2, 4, 6, 7, 8},
          {1, 3, 4, 5, 6, 7, 8, 9}, {1, 2, 3, 4, 5, 9}, {2, 4, 7, 8}],
       boxes =
         [{1, 2, 4, 7}, {2, 3, 4, 6, 8}, {1, 2, 3, 4, 5, 7, 8, 9},
          {1, 2, 3, 5, 6, 9}, {1, 4, 5, 7, 9}, {2, 4, 5, 7, 8, 9},
          {1, 2, 3, 4, 5, 7, 8, 9}, {2, 3, 5, 6, 7}, {1, 3, 4, 6}],
       log = [] \<rparr>"

section \<open>Rows, columns and boxes\<close>

lemma rcb_eq: "rcb sq = (sq div 9, sq mod 9, 3 * (sq div 27) + (sq mod 9) div 3)"
  by (simp add: rcb_def Let_def div_mult2_eq)
lemma get_row_eq: "get_row sq = sq div 9"
  and get_col_eq: "get_col sq = sq mod 9"
  and get_box_eq: "get_box sq = 3 * (sq div 27) + (sq mod 9) div 3"
  by (simp_all add: get_row_def get_col_def get_box_def rcb_eq)

lemma unit_bounds: 
  assumes "sq < 81" shows "get_row sq < 9 \<and> get_col sq < 9 \<and> get_box sq < 9"
proof -
  have "sq div 9 < 9" using assms by (simp add: less_mult_imp_div_less)
  moreover have "sq div 27 < 3" using assms by (simp add: less_mult_imp_div_less)
  moreover have "(sq mod 9) div 3 < 3" by (simp add: less_mult_imp_div_less)
  ultimately show ?thesis unfolding get_row_eq get_col_eq get_box_eq by simp
qed

lemma div9_iff: "(i div 9 = k) \<longleftrightarrow> (k * 9 \<le> i \<and> i < k * 9 + 9)" for i k :: nat
proof
  assume "i div 9 = k"
  then show "k * 9 \<le> i \<and> i < k * 9 + 9"
    using div_times_less_eq_dividend [of i 9] dividend_less_div_times [of 9 i] by auto
next
  assume "k * 9 \<le> i \<and> i < k * 9 + 9"
  then show "i div 9 = k" by (intro div_nat_eqI) (simp_all add: mult.commute)
qed

lemma set_row': "k < 9 \<Longrightarrow> set (get_sqs_in_row k) = {i. i < 81 \<and> get_row i = k}"
proof -
  assume k: "k < 9"
  have "\<And>i. k * 9 \<le> i \<and> i < k * 9 + 9 \<Longrightarrow> i < 81" using k by simp
  then show ?thesis unfolding get_sqs_in_row_def get_row_eq div9_iff by auto
qed

lemma set_col': "k < 9 \<Longrightarrow> set (get_sqs_in_col k) = {i. i < 81 \<and> get_col i = k}"
proof -
  assume k: "k < 9"
  then have n: "(81 - k + 8) div 9 = 9" unfolding div9_iff by arith
  show ?thesis
  proof (intro equalityI subsetI)
    fix i assume "i \<in> set (get_sqs_in_col k)"
    then obtain j where "j < 9" "i = k + 9 * j"
      unfolding get_sqs_in_col_def n by auto
    with k show "i \<in> {i. i < 81 \<and> get_col i = k}" by (simp add: get_col_eq)
  next
    fix i assume "i \<in> {i. i < 81 \<and> get_col i = k}"
    then have i: "i < 81" "i mod 9 = k" by (simp_all add: get_col_eq)
    have "i = k + 9 * (i div 9)" using i(2) mult_div_mod_eq [of 9 i] by simp
    moreover have "i div 9 < 9" using i(1) by (simp add: less_mult_imp_div_less)
    ultimately have "i \<in> (\<lambda>j. k + 9 * j) ` {0 ..< 9}" by (intro image_eqI [where x = "i div 9"]) simp_all
    then show "i \<in> set (get_sqs_in_col k)"
      unfolding get_sqs_in_col_def n by simp
  qed
qed

lemma set_box': "set (get_sqs_in_box k) = {i. i < 81 \<and> get_box i = k}"
  unfolding get_sqs_in_box_def by auto

lemma distinct_units: "distinct (get_sqs_in_row k)" "distinct (get_sqs_in_col k)" "distinct (get_sqs_in_box k)"
  unfolding get_sqs_in_row_def get_sqs_in_col_def get_sqs_in_box_def
  by (simp_all add: distinct_map inj_on_def)

lemma placed_iff: "v \<in> placed bd sqs \<longleftrightarrow> v \<noteq> 0 \<and> (\<exists>i \<in> set sqs. bd ! i = v)"
  unfolding placed_def by auto

lemma uniq_iff:
  assumes "distinct sqs"
  shows "uniq bd sqs \<longleftrightarrow> (\<forall>i \<in> set sqs. \<forall>j \<in> set sqs. i \<noteq> j \<and> bd ! i \<noteq> 0 \<longrightarrow> bd ! i \<noteq> bd ! j)"
proof -
  have "filter (\<lambda>v. v \<noteq> 0) (map (\<lambda>sq. bd ! sq) sqs) = map (\<lambda>sq. bd ! sq) (filter (\<lambda>sq. bd ! sq \<noteq> 0) sqs)"
    by (simp add: filter_map comp_def)
  then have "uniq bd sqs \<longleftrightarrow> inj_on (\<lambda>sq. bd ! sq) {i \<in> set sqs. bd ! i \<noteq> 0}"
    unfolding uniq_def using assms by (simp add: distinct_map)
  also have "\<dots> \<longleftrightarrow> (\<forall>i \<in> set sqs. \<forall>j \<in> set sqs. i \<noteq> j \<and> bd ! i \<noteq> 0 \<longrightarrow> bd ! i \<noteq> bd ! j)"
    unfolding inj_on_def by auto
  finally show ?thesis .
qed

text \<open>How one update of the board changes the values placed in a unit.\<close>

lemma map_nth_update_other:
  "sq \<notin> set sqs \<Longrightarrow> map (\<lambda>i. bd[sq := v] ! i) sqs = map (\<lambda>i. bd ! i) sqs"
  by (induction sqs) (auto simp: nth_list_update)

lemma placed_update_other: "sq \<notin> set sqs \<Longrightarrow> placed (bd[sq := v]) sqs = placed bd sqs"
  unfolding placed_def by (simp add: map_nth_update_other)

lemma placed_update_fill:
  "sq \<in> set sqs \<Longrightarrow> sq < length bd \<Longrightarrow> bd ! sq = 0 \<Longrightarrow> v \<noteq> 0 \<Longrightarrow>
   placed (bd[sq := v]) sqs = insert v (placed bd sqs)"
  unfolding placed_def by (auto simp: nth_list_update image_iff)

lemma placed_update_unfill:
  assumes "sq \<in> set sqs" "sq < length bd" "distinct sqs" "uniq bd sqs"
  shows "placed (bd[sq := 0]) sqs = placed bd sqs - {bd ! sq}"
proof -
  have u: "\<forall>j \<in> set sqs. j \<noteq> sq \<and> bd ! j \<noteq> 0 \<longrightarrow> bd ! j \<noteq> bd ! sq"
    using assms uniq_iff [OF assms(3), of bd] by metis
  show ?thesis
    unfolding placed_def using assms(1,2) u by (auto simp: nth_list_update image_iff)
qed

lemma uniq_update_other: "sq \<notin> set sqs \<Longrightarrow> uniq (bd[sq := v]) sqs = uniq bd sqs"
proof -
  assume "sq \<notin> set sqs"
  then show ?thesis unfolding uniq_def by (simp add: map_nth_update_other)
qed

lemma uniq_update_fill:
  assumes "distinct sqs" "uniq bd sqs" "sq < length bd" "v \<notin> placed bd sqs"
  shows "uniq (bd[sq := v]) sqs"
  using assms(2,3,4) unfolding uniq_iff [OF assms(1)] placed_iff
  by (auto simp: nth_list_update)

lemma uniq_update_unfill:
  assumes "distinct sqs" "uniq bd sqs"
  shows "uniq (bd[sq := 0]) sqs"
proof (cases "sq < length bd")
  case True
  have u: "\<And>i j. i \<in> set sqs \<Longrightarrow> j \<in> set sqs \<Longrightarrow> i \<noteq> j \<Longrightarrow> bd ! i \<noteq> 0 \<Longrightarrow> bd ! i \<noteq> bd ! j"
    using assms(2) unfolding uniq_iff [OF assms(1)] by blast
  show ?thesis
    unfolding uniq_iff [OF assms(1)]
  proof (intro ballI impI)
    fix i j
    assume ij: "i \<in> set sqs" "j \<in> set sqs" "i \<noteq> j \<and> bd[sq := 0] ! i \<noteq> 0"
    then have "i \<noteq> sq" "bd ! i \<noteq> 0" using True by (auto simp: nth_list_update split: if_splits)
    with ij u [of i j] show "bd[sq := 0] ! i \<noteq> bd[sq := 0] ! j"
      using True by (auto simp: nth_list_update)
  qed
next
  case False
  then have "bd[sq := 0] = bd" by (intro list_update_beyond) simp
  then show ?thesis using assms(2) by simp
qed

lemma rcb_split: "rcb sq = (get_row sq, get_col sq, get_box sq)"
  by (simp add: get_row_def get_col_def get_box_def)

lemma fam_units: "fam get_sqs_in_row get_row" "fam get_sqs_in_col get_col" "fam get_sqs_in_box get_box"
  unfolding fam_def using set_row' set_col' set_box' distinct_units unit_bounds by auto

lemma cands_ok_fill:
  assumes f: "fam sqs u" and c: "cands_ok sqs bd xs" and l: "length xs = 9" "length bd = 81"
    and sq: "sq < 81" "bd ! sq = 0" and v: "v \<noteq> 0"
  shows "cands_ok sqs (bd[sq := v]) (xs[u sq := xs ! u sq - {v}])"
  unfolding cands_ok_def
proof
  fix k assume "k \<in> {0 ..< 9::nat}"
  then have k: "k < 9" by simp
  have xk: "xs ! k = {1..9} - placed bd (sqs k)" using c k unfolding cands_ok_def by simp
  have sk: "set (sqs k) = {i. i < 81 \<and> u i = k}" using f k unfolding fam_def by simp
  show "xs[u sq := xs ! u sq - {v}] ! k = {1..9} - placed (bd[sq := v]) (sqs k)"
  proof (cases "u sq = k")
    case True
    then have "sq \<in> set (sqs k)" using sk sq by simp
    then have p: "placed (bd[sq := v]) (sqs k) = insert v (placed bd (sqs k))"
      using placed_update_fill sq v l by simp
    have "xs[u sq := xs ! u sq - {v}] ! k = xs ! k - {v}" using True k l by simp
    also have "\<dots> = {1..9} - insert v (placed bd (sqs k))" unfolding xk by blast
    finally show ?thesis unfolding p .
  next
    case False
    then have "sq \<notin> set (sqs k)" using sk by simp
    then show ?thesis using False xk by (simp add: placed_update_other)
  qed
qed

lemma cands_ok_unfill:
  assumes f: "fam sqs u" and c: "cands_ok sqs bd xs" and l: "length xs = 9" "length bd = 81"
    and sq: "sq < 81" "bd ! sq \<noteq> 0" "bd ! sq < 10" and un: "all_uniq sqs bd"
  shows "cands_ok sqs (bd[sq := 0]) (xs[u sq := insert (bd ! sq) (xs ! u sq)])"
  unfolding cands_ok_def
proof
  fix k assume "k \<in> {0 ..< 9::nat}"
  then have k: "k < 9" by simp
  have xk: "xs ! k = {1..9} - placed bd (sqs k)" using c k unfolding cands_ok_def by simp
  have sk: "set (sqs k) = {i. i < 81 \<and> u i = k}" and dk: "distinct (sqs k)"
    using f k unfolding fam_def by simp_all
  have uk: "uniq bd (sqs k)" using un k unfolding all_uniq_def by simp
  show "xs[u sq := insert (bd ! sq) (xs ! u sq)] ! k = {1..9} - placed (bd[sq := 0]) (sqs k)"
  proof (cases "u sq = k")
    case True
    then have "sq \<in> set (sqs k)" using sk sq by simp
    then have p: "placed (bd[sq := 0]) (sqs k) = placed bd (sqs k) - {bd ! sq}"
      using placed_update_unfill sq l dk uk by simp
    have w: "bd ! sq \<in> {1..9}" using sq by simp
    have "xs[u sq := insert (bd ! sq) (xs ! u sq)] ! k = insert (bd ! sq) (xs ! k)"
      using True k l by simp
    also have "\<dots> = {1..9} - (placed bd (sqs k) - {bd ! sq})" unfolding xk using w by blast
    finally show ?thesis unfolding p .
  next
    case False
    then have "sq \<notin> set (sqs k)" using sk by simp
    then show ?thesis using False xk by (simp add: placed_update_other)
  qed
qed

lemma all_uniq_fill:
  assumes f: "fam sqs u" and un: "all_uniq sqs bd" and l: "length bd = 81"
    and sq: "sq < 81" and v: "v \<notin> placed bd (sqs (u sq))"
  shows "all_uniq sqs (bd[sq := v])"
  unfolding all_uniq_def
proof
  fix k assume "k \<in> {0 ..< 9::nat}"
  then have k: "k < 9" by simp
  have sk: "set (sqs k) = {i. i < 81 \<and> u i = k}" and dk: "distinct (sqs k)"
    using f k unfolding fam_def by simp_all
  have uk: "uniq bd (sqs k)" using un k unfolding all_uniq_def by simp
  show "uniq (bd[sq := v]) (sqs k)"
  proof (cases "u sq = k")
    case True
    then show ?thesis using uniq_update_fill [OF dk uk] sq l v by simp
  next
    case False
    then have "sq \<notin> set (sqs k)" using sk by simp
    then show ?thesis using uk by (simp add: uniq_update_other)
  qed
qed

lemma all_uniq_unfill:
  assumes f: "fam sqs u" and un: "all_uniq sqs bd"
  shows "all_uniq sqs (bd[sq := 0])"
  using assms uniq_update_unfill unfolding all_uniq_def fam_def by simp

lemma cands_mem:
  assumes f: "fam sqs u" and c: "cands_ok sqs bd xs" and sq: "sq < 81"
  shows "v \<in> xs ! u sq \<longleftrightarrow> 1 \<le> v \<and> v \<le> 9 \<and> v \<notin> placed bd (sqs (u sq))"
proof -
  have "u sq < 9" using f sq unfolding fam_def by simp
  then show ?thesis using c unfolding cands_ok_def by auto
qed

lemma placed_self:
  assumes f: "fam sqs u" and sq: "sq < 81" "bd ! sq \<noteq> 0"
  shows "bd ! sq \<in> placed bd (sqs (u sq))"
proof -
  have "u sq < 9" using f sq unfolding fam_def by simp
  then have "sq \<in> set (sqs (u sq))" using f sq unfolding fam_def by simp
  then show ?thesis using sq unfolding placed_iff by blast
qed

section \<open>fill and unfill keep the board well formed\<close>

lemma well_formedD:
  assumes "well_formed s"
  shows "length (board s) = 81" "length (rows s) = 9" "length (cols s) = 9" "length (boxes s) = 9"
    "\<And>i. i < 81 \<Longrightarrow> board s ! i < 10"
    "cands_ok get_sqs_in_row (board s) (rows s)"
    "cands_ok get_sqs_in_col (board s) (cols s)"
    "cands_ok get_sqs_in_box (board s) (boxes s)"
    "all_uniq get_sqs_in_row (board s)"
    "all_uniq get_sqs_in_col (board s)"
    "all_uniq get_sqs_in_box (board s)"
  using assms unfolding well_formed_def shape_def sets_ok_def units_uniq_def by simp_all

lemma well_formedI:
  assumes "length (board s) = 81" "length (rows s) = 9" "length (cols s) = 9" "length (boxes s) = 9"
    "\<And>i. i < 81 \<Longrightarrow> board s ! i < 10"
    "cands_ok get_sqs_in_row (board s) (rows s)"
    "cands_ok get_sqs_in_col (board s) (cols s)"
    "cands_ok get_sqs_in_box (board s) (boxes s)"
    "all_uniq get_sqs_in_row (board s)"
    "all_uniq get_sqs_in_col (board s)"
    "all_uniq get_sqs_in_box (board s)"
  shows "well_formed s"
  using assms unfolding well_formed_def shape_def sets_ok_def units_uniq_def by simp

lemma empty_units:
  assumes f: "fam sqs u"
  shows "cands_ok sqs (replicate 81 0) (replicate 9 {1..9})" "all_uniq sqs (replicate 81 0)"
proof -
  have z: "map (\<lambda>sq. replicate 81 (0::nat) ! sq) (sqs k) = map (\<lambda>sq. 0) (sqs k)" if "k < 9" for k
    using f that unfolding fam_def by (intro map_cong) auto
  have "placed (replicate 81 0) (sqs k) = {}" if "k < 9" for k
    unfolding placed_def z [OF that] by auto
  then show "cands_ok sqs (replicate 81 0) (replicate 9 {1..9})"
    unfolding cands_ok_def by simp
  have "uniq (replicate 81 0) (sqs k)" if "k < 9" for k
    unfolding uniq_def z [OF that] by (simp add: filter_map comp_def)
  then show "all_uniq sqs (replicate 81 0)"
    unfolding all_uniq_def by simp
qed

lemma init_fields:
  "board init = replicate 81 0" "rows init = replicate 9 {1..9}"
  "cols init = replicate 9 {1..9}" "boxes init = replicate 9 {1..9}" "log init = []"
  by (simp_all add: init_def)

lemma well_formed_init: "well_formed init"
proof (rule well_formedI)
  show "cands_ok get_sqs_in_row (board init) (rows init)"
    unfolding init_fields by (rule empty_units [OF fam_units(1)])
  show "cands_ok get_sqs_in_col (board init) (cols init)"
    unfolding init_fields by (rule empty_units [OF fam_units(2)])
  show "cands_ok get_sqs_in_box (board init) (boxes init)"
    unfolding init_fields by (rule empty_units [OF fam_units(3)])
  show "all_uniq get_sqs_in_row (board init)"
    unfolding init_fields by (rule empty_units [OF fam_units(1)])
  show "all_uniq get_sqs_in_col (board init)"
    unfolding init_fields by (rule empty_units [OF fam_units(2)])
  show "all_uniq get_sqs_in_box (board init)"
    unfolding init_fields by (rule empty_units [OF fam_units(3)])
qed (simp_all add: init_def)

lemma nth_update_bound:
  fixes bd :: "nat list"
  assumes "\<And>i. i < n \<Longrightarrow> bd ! i < m" "v < m" "i < n"
  shows "bd[sq := v] ! i < m"
proof (cases "sq < length bd \<and> sq = i")
  case True
  then show ?thesis using assms(2) by simp
next
  case False
  then have "bd[sq := v] ! i = bd ! i" by (cases "sq < length bd") (auto simp: list_update_beyond not_less)
  then show ?thesis using assms(1,3) by simp
qed

lemma put_well_formed:
  assumes wf: "well_formed s" and sq: "sq < 81" "board s ! sq = 0"
    and v: "v \<in> rows s ! get_row sq" "v \<in> cols s ! get_col sq" "v \<in> boxes s ! get_box sq"
  shows "well_formed (s\<lparr> board := (board s)[sq := v],
             rows := (rows s)[get_row sq := rows s ! get_row sq - {v}],
             cols := (cols s)[get_col sq := cols s ! get_col sq - {v}],
             boxes := (boxes s)[get_box sq := boxes s ! get_box sq - {v}] \<rparr>)"
proof -
  note d = well_formedD [OF wf]
  have vr: "1 \<le> v \<and> v \<le> 9 \<and> v \<notin> placed (board s) (get_sqs_in_row (get_row sq))"
    using cands_mem [OF fam_units(1) d(6) sq(1)] v(1) by simp
  have vc: "v \<notin> placed (board s) (get_sqs_in_col (get_col sq))"
    using cands_mem [OF fam_units(2) d(7) sq(1)] v(2) by simp
  have vb: "v \<notin> placed (board s) (get_sqs_in_box (get_box sq))"
    using cands_mem [OF fam_units(3) d(8) sq(1)] v(3) by simp
  have v0: "v \<noteq> 0" using vr by simp
  show ?thesis
  proof (rule well_formedI)
    fix i :: nat assume "i < 81"
    then show "board (s\<lparr> board := (board s)[sq := v],
             rows := (rows s)[get_row sq := rows s ! get_row sq - {v}],
             cols := (cols s)[get_col sq := cols s ! get_col sq - {v}],
             boxes := (boxes s)[get_box sq := boxes s ! get_box sq - {v}] \<rparr>) ! i < 10"
      using nth_update_bound [of 81 "board s" 10 v i sq] d(5) vr by simp
  qed (simp_all add: d(1-4) cands_ok_fill [OF fam_units(1) d(6) d(2) d(1) sq v0]
        cands_ok_fill [OF fam_units(2) d(7) d(3) d(1) sq v0]
        cands_ok_fill [OF fam_units(3) d(8) d(4) d(1) sq v0]
        all_uniq_fill [OF fam_units(1) d(9) d(1) sq(1) conjunct2 [OF conjunct2 [OF vr]]]
        all_uniq_fill [OF fam_units(2) d(10) d(1) sq(1) vc]
        all_uniq_fill [OF fam_units(3) d(11) d(1) sq(1) vb])
qed

lemma clear_well_formed:
  assumes wf: "well_formed s" and sq: "sq < 81" "board s ! sq \<noteq> 0"
  shows "well_formed (s\<lparr> board := (board s)[sq := 0],
             rows := (rows s)[get_row sq := insert (board s ! sq) (rows s ! get_row sq)],
             cols := (cols s)[get_col sq := insert (board s ! sq) (cols s ! get_col sq)],
             boxes := (boxes s)[get_box sq := insert (board s ! sq) (boxes s ! get_box sq)] \<rparr>)"
proof -
  note d = well_formedD [OF wf]
  have v10: "board s ! sq < 10" using d(5) sq by simp
  show ?thesis
  proof (rule well_formedI)
    fix i :: nat assume "i < 81"
    then show "board (s\<lparr> board := (board s)[sq := 0],
             rows := (rows s)[get_row sq := insert (board s ! sq) (rows s ! get_row sq)],
             cols := (cols s)[get_col sq := insert (board s ! sq) (cols s ! get_col sq)],
             boxes := (boxes s)[get_box sq := insert (board s ! sq) (boxes s ! get_box sq)] \<rparr>) ! i < 10"
      using nth_update_bound [of 81 "board s" 10 0 i sq] d(5) by simp
  qed (simp_all add: d(1-4) cands_ok_unfill [OF fam_units(1) d(6) d(2) d(1) sq v10 d(9)]
        cands_ok_unfill [OF fam_units(2) d(7) d(3) d(1) sq v10 d(10)]
        cands_ok_unfill [OF fam_units(3) d(8) d(4) d(1) sq v10 d(11)]
        all_uniq_unfill [OF fam_units(1) d(9)]
        all_uniq_unfill [OF fam_units(2) d(10)]
        all_uniq_unfill [OF fam_units(3) d(11)])
qed

lemma unfill_well_formed:
  assumes wf: "well_formed s" and sq: "sq < 81"
  shows "\<exists>s'. unfill sq s = Inr s' \<and> well_formed s' \<and> board s' = (board s)[sq := 0] \<and> log s' = log s"
proof (cases "board s ! sq = 0")
  case True
  then have "(board s)[sq := 0] = board s" by (metis list_update_id)
  then show ?thesis using True wf sq by (simp add: unfill_def)
next
  case False
  note d = well_formedD [OF wf]
  have "board s ! sq \<notin> rows s ! get_row sq"
    using cands_mem [OF fam_units(1) d(6) sq] placed_self [OF fam_units(1) sq False] by simp
  moreover have "board s ! sq \<notin> cols s ! get_col sq"
    using cands_mem [OF fam_units(2) d(7) sq] placed_self [OF fam_units(2) sq False] by simp
  moreover have "board s ! sq \<notin> boxes s ! get_box sq"
    using cands_mem [OF fam_units(3) d(8) sq] placed_self [OF fam_units(3) sq False] by simp
  ultimately show ?thesis
    using False sq clear_well_formed [OF wf sq False]
    by (simp add: unfill_def rcb_split Let_def)
qed

lemma fill_empty_well_formed:
  assumes wf: "well_formed s" and sq: "sq < 81" "board s ! sq = 0"
    and v: "v \<in> get_sq_options sq s"
  shows "\<exists>c s'. fill sq v s = Inr (c, s') \<and> well_formed s' \<and> board s' = (board s)[sq := v] \<and> log s' = log s"
proof -
  note d = well_formedD [OF wf]
  have m: "v \<in> rows s ! get_row sq" "v \<in> cols s ! get_col sq" "v \<in> boxes s ! get_box sq"
    using v sq by (simp_all add: get_sq_options_def rcb_split)
  have vr: "1 \<le> v \<and> v \<le> 9"
    using cands_mem [OF fam_units(1) d(6) sq(1)] m(1) by simp
  show ?thesis
    using sq m vr put_well_formed [OF wf sq m]
    by (simp add: fill_def rcb_split Let_def)
qed

lemma fill_result_well_formed:
  assumes wf: "well_formed s" and f: "fill sq v s = Inr (c, s')"
  shows "well_formed s' \<and> board s' = (board s)[sq := v] \<and> log s' = log s"
proof -
  have sq: "sq < 81" and v10: "v < 10" using f by (auto simp: fill_def split: if_splits)
  obtain s1 where s1: "unfill sq s = Inr s1" "well_formed s1" "board s1 = (board s)[sq := 0]" "log s1 = log s"
    using unfill_well_formed [OF wf sq] by blast
  have u0: "unfill sq s = Inr s" if "board s ! sq = 0" using that sq by (simp add: unfill_def)
  have pre: "(if board s ! sq \<noteq> 0 then unfill sq s else Inr s) = Inr s1"
    using s1(1) u0 by auto
  have e1: "board s1 ! sq = 0" using s1(3) sq well_formedD(1) [OF wf] by simp
  show ?thesis
  proof (cases "v = 0")
    case True
    then show ?thesis using f sq s1 unfolding fill_def pre by simp
  next
    case False
    have m: "v \<in> rows s1 ! get_row sq \<and> v \<in> cols s1 ! get_col sq \<and> v \<in> boxes s1 ! get_box sq"
      using f sq v10 False e1 unfolding fill_def pre
      by (auto simp: rcb_split Let_def split: if_splits)
    then have "v \<in> get_sq_options sq s1" using e1 by (simp add: get_sq_options_def rcb_split)
    from fill_empty_well_formed [OF s1(2) sq e1 this]
    obtain c' s2 where s2: "fill sq v s1 = Inr (c', s2)" "well_formed s2" "board s2 = (board s1)[sq := v]" "log s2 = log s1"
      by blast
    have "fill sq v s = fill sq v s1"
      using sq v10 e1 s1(1) u0 unfolding fill_def by (cases "board s ! sq = 0") (simp_all add: unfill_def)
    then show ?thesis using f s2 s1 by simp
  qed
qed

section \<open>Call sequences keep the candidate sets exact\<close>

lemma for_each_inv:
  assumes "\<And>x st st'. P st \<Longrightarrow> body x st = Inr st' \<Longrightarrow> P st'"
    and "P st" and "for_each xs body st = Inr st'"
  shows "P st'"
  using assms(2,3)
proof (induction xs arbitrary: st)
  case Nil
  then show ?case by simp
next
  case (Cons x xs)
  then show ?case using assms(1) by (auto split: sum.splits)
qed

lemma apply_call_well_formed:
  assumes "well_formed s" "apply_call c s = Inr s'"
  shows "well_formed s'"
proof (cases c)
  case (Fill sq v)
  then show ?thesis using assms fill_result_well_formed by (auto split: sum.splits)
next
  case (Unfill sq)
  then have "sq < 81" using assms(2) by (auto simp: unfill_def split: if_splits)
  then show ?thesis using Unfill assms unfill_well_formed by fastforce
qed

lemma apply_calls_well_formed:
  assumes "well_formed s" "apply_calls cs s = Inr s'"
  shows "well_formed s'"
  using for_each_inv [of well_formed apply_call s cs s'] apply_call_well_formed assms
  unfolding apply_calls_def by blast

text \<open>
  C2. After every sequence of \<open>fill\<close> and \<open>unfill\<close> calls on a freshly constructed
  board, each row set is exactly \<open>{1..9}\<close> minus the values placed in its row, and the
  same holds for the column sets and the box sets.
\<close>

theorem candidate_sets_invariant:
  assumes "apply_calls cs init = Inr s"
  shows "\<forall>k \<in> {0 ..< 9}.
           rows s ! k = {1..9} - placed (board s) (get_sqs_in_row k) \<and>
           cols s ! k = {1..9} - placed (board s) (get_sqs_in_col k) \<and>
           boxes s ! k = {1..9} - placed (board s) (get_sqs_in_box k)"
proof -
  have "well_formed s" using apply_calls_well_formed [OF well_formed_init assms] .
  then show ?thesis unfolding well_formed_def sets_ok_def cands_ok_def by blast
qed

lemma run_calls: "apply_calls [Fill 0 5, Fill 10 3, Unfill 0, Fill 80 5] init = Inr calls_state"
  by code_simp

theorem candidate_sets_invariant_witness:
  "\<exists>s. apply_calls [Fill 0 5, Fill 10 3, Unfill 0, Fill 80 5] init = Inr s \<and>
       (\<forall>k \<in> {0 ..< 9}.
           rows s ! k = {1..9} - placed (board s) (get_sqs_in_row k) \<and>
           cols s ! k = {1..9} - placed (board s) (get_sqs_in_col k) \<and>
           boxes s ! k = {1..9} - placed (board s) (get_sqs_in_box k))"
  by (intro exI [of _ calls_state] conjI run_calls candidate_sets_invariant [OF run_calls])

section \<open>The contract of fill\<close>

lemma shapeD:
  assumes "shape s"
  shows "length (board s) = 81" "length (rows s) = 9" "length (cols s) = 9" "length (boxes s) = 9"
  using assms unfolding shape_def by simp_all

lemma fill_empty_eq:
  assumes sq: "sq < 81" "board s ! sq = 0" and v: "0 < v" "v < 10"
  shows "fill sq v s =
     (if v \<in> rows s ! get_row sq \<and> v \<in> cols s ! get_col sq \<and> v \<in> boxes s ! get_box sq
      then Inr ((if (rows s)[get_row sq := rows s ! get_row sq - {v}] ! get_row sq = {}
                 then set (get_sqs_in_row (get_row sq)) else {}) \<union>
                (if (cols s)[get_col sq := cols s ! get_col sq - {v}] ! get_col sq = {}
                 then set (get_sqs_in_col (get_col sq)) else {}) \<union>
                (if (boxes s)[get_box sq := boxes s ! get_box sq - {v}] ! get_box sq = {}
                 then set (get_sqs_in_box (get_box sq)) else {}),
                s\<lparr> board := (board s)[sq := v],
                   rows := (rows s)[get_row sq := rows s ! get_row sq - {v}],
                   cols := (cols s)[get_col sq := cols s ! get_col sq - {v}],
                   boxes := (boxes s)[get_box sq := boxes s ! get_box sq - {v}] \<rparr>)
      else Inl AssertionError)"
  using assms by (simp add: fill_def rcb_split Let_def)

text \<open>
  C10. On a board that satisfies the candidate-set invariant, filling an empty square with
  one of its options and unfilling it again gives back the state before the fill: the
  board list, all 27 sets and the log.
\<close>

theorem fill_unfill_restores:
  assumes sh: "shape s" and ok: "sets_ok s"
    and sq: "sq < 81" "board s ! sq = 0" and v: "v \<in> get_sq_options sq s"
  shows "\<exists>c s1. fill sq v s = Inr (c, s1) \<and> unfill sq s1 = Inr s"
proof -
  note l = shapeD [OF sh]
  have m: "v \<in> rows s ! get_row sq" "v \<in> cols s ! get_col sq" "v \<in> boxes s ! get_box sq"
    using v sq by (simp_all add: get_sq_options_def rcb_split)
  have "cands_ok get_sqs_in_row (board s) (rows s)" using ok unfolding sets_ok_def by simp
  then have vr: "0 < v" "v < 10"
    using cands_mem [OF fam_units(1) _ sq(1), of "board s" "rows s" v] m(1) by simp_all
  have b: "get_row sq < 9" "get_col sq < 9" "get_box sq < 9" using unit_bounds [OF sq(1)] by simp_all
  let ?s1 = "s\<lparr> board := (board s)[sq := v],
                   rows := (rows s)[get_row sq := rows s ! get_row sq - {v}],
                   cols := (cols s)[get_col sq := cols s ! get_col sq - {v}],
                   boxes := (boxes s)[get_box sq := boxes s ! get_box sq - {v}] \<rparr>"
  have f: "\<exists>c. fill sq v s = Inr (c, ?s1)"
    unfolding fill_empty_eq [OF sq vr] using m by simp
  have i: "insert v (rows s ! get_row sq - {v}) = rows s ! get_row sq"
    "insert v (cols s ! get_col sq - {v}) = cols s ! get_col sq"
    "insert v (boxes s ! get_box sq - {v}) = boxes s ! get_box sq"
    using m by blast+
  have "(board s)[sq := 0] = board s" using sq(2) by (metis list_update_id)
  then have "unfill sq ?s1 = Inr s"
    using sq vr l b i by (simp add: unfill_def rcb_split Let_def)
  with f show ?thesis by blast
qed

lemma calls_state_well_formed: "well_formed calls_state"
  using apply_calls_well_formed [OF well_formed_init run_calls] .

lemma calls_state_facts:
  "shape calls_state" "sets_ok calls_state" "board calls_state ! 0 = 0"
  "7 \<in> get_sq_options 0 calls_state"
proof -
  show "shape calls_state" "sets_ok calls_state"
    using calls_state_well_formed unfolding well_formed_def by simp_all
  show "board calls_state ! 0 = 0" "7 \<in> get_sq_options 0 calls_state"
    by code_simp+
qed

theorem fill_unfill_restores_witness:
  "shape calls_state \<and> sets_ok calls_state \<and> (0::nat) < 81 \<and> board calls_state ! 0 = 0
   \<and> 7 \<in> get_sq_options 0 calls_state
   \<and> (\<exists>c s1. fill 0 7 calls_state = Inr (c, s1) \<and> unfill 0 s1 = Inr calls_state)"
  using fill_unfill_restores [OF calls_state_facts(1,2) _ calls_state_facts(3,4)] calls_state_facts
  by simp

text \<open>
  C3. On an empty square, with a value from 1 to 9, \<open>fill\<close> raises unless the value is in
  the row set, the column set and the box set of the square. Otherwise it stores the value,
  removes it from exactly these three sets, and returns the squares of every row, column
  and box whose set became empty by this call.
\<close>

theorem fill_contract:
  assumes sh: "shape s" and sq: "sq < 81" "board s ! sq = 0" and v: "1 \<le> v" "v \<le> 9"
  shows "(\<not> (v \<in> rows s ! get_row sq \<and> v \<in> cols s ! get_col sq \<and> v \<in> boxes s ! get_box sq)
            \<longrightarrow> fill sq v s = Inl AssertionError)
       \<and> (v \<in> rows s ! get_row sq \<and> v \<in> cols s ! get_col sq \<and> v \<in> boxes s ! get_box sq
            \<longrightarrow> (\<exists>completed s'. fill sq v s = Inr (completed, s')
                  \<and> board s' = (board s)[sq := v]
                  \<and> rows s' = (rows s)[get_row sq := rows s ! get_row sq - {v}]
                  \<and> cols s' = (cols s)[get_col sq := cols s ! get_col sq - {v}]
                  \<and> boxes s' = (boxes s)[get_box sq := boxes s ! get_box sq - {v}]
                  \<and> log s' = log s
                  \<and> completed = {i. i < 81 \<and>
                        (became_empty (rows s) (rows s') (get_row i)
                         \<or> became_empty (cols s) (cols s') (get_col i)
                         \<or> became_empty (boxes s) (boxes s') (get_box i))}))"
proof (intro conjI impI)
  assume "\<not> (v \<in> rows s ! get_row sq \<and> v \<in> cols s ! get_col sq \<and> v \<in> boxes s ! get_box sq)"
  then show "fill sq v s = Inl AssertionError"
    using fill_empty_eq [OF sq, of v] v by simp
next
  assume m: "v \<in> rows s ! get_row sq \<and> v \<in> cols s ! get_col sq \<and> v \<in> boxes s ! get_box sq"
  note l = shapeD [OF sh]
  have b: "get_row sq < 9" "get_col sq < 9" "get_box sq < 9" using unit_bounds [OF sq(1)] by simp_all
  let ?rows = "(rows s)[get_row sq := rows s ! get_row sq - {v}]"
  let ?cols = "(cols s)[get_col sq := cols s ! get_col sq - {v}]"
  let ?boxes = "(boxes s)[get_box sq := boxes s ! get_box sq - {v}]"
  let ?s' = "s\<lparr> board := (board s)[sq := v], rows := ?rows, cols := ?cols, boxes := ?boxes \<rparr>"
  let ?c = "(if ?rows ! get_row sq = {} then set (get_sqs_in_row (get_row sq)) else {}) \<union>
            (if ?cols ! get_col sq = {} then set (get_sqs_in_col (get_col sq)) else {}) \<union>
            (if ?boxes ! get_box sq = {} then set (get_sqs_in_box (get_box sq)) else {})"
  have f: "fill sq v s = Inr (?c, ?s')"
    using fill_empty_eq [OF sq, of v] v m by simp
  have be: "became_empty xs (xs[k := xs ! k - {v}]) j \<longleftrightarrow> j = k \<and> xs[k := xs ! k - {v}] ! k = {}"
    if "v \<in> xs ! k" "k < length xs" for xs :: "nat set list" and k j
    using that unfolding became_empty_def by (cases "j = k") auto
  have r: "(if ?rows ! get_row sq = {} then set (get_sqs_in_row (get_row sq)) else {})
        = {i. i < 81 \<and> became_empty (rows s) ?rows (get_row i)}"
    using m b l set_row' [OF b(1)] by (subst be) auto
  have c: "(if ?cols ! get_col sq = {} then set (get_sqs_in_col (get_col sq)) else {})
        = {i. i < 81 \<and> became_empty (cols s) ?cols (get_col i)}"
    using m b l set_col' [OF b(2)] by (subst be) auto
  have x: "(if ?boxes ! get_box sq = {} then set (get_sqs_in_box (get_box sq)) else {})
        = {i. i < 81 \<and> became_empty (boxes s) ?boxes (get_box i)}"
    using m b l set_box' [of "get_box sq"] by (subst be) auto
  have "?c = {i. i < 81 \<and> (became_empty (rows s) ?rows (get_row i)
                         \<or> became_empty (cols s) ?cols (get_col i)
                         \<or> became_empty (boxes s) ?boxes (get_box i))}"
    unfolding r c x by blast
  then show "\<exists>completed s'. fill sq v s = Inr (completed, s')
                  \<and> board s' = (board s)[sq := v]
                  \<and> rows s' = (rows s)[get_row sq := rows s ! get_row sq - {v}]
                  \<and> cols s' = (cols s)[get_col sq := cols s ! get_col sq - {v}]
                  \<and> boxes s' = (boxes s)[get_box sq := boxes s ! get_box sq - {v}]
                  \<and> log s' = log s
                  \<and> completed = {i. i < 81 \<and>
                        (became_empty (rows s) (rows s') (get_row i)
                         \<or> became_empty (cols s) (cols s') (get_col i)
                         \<or> became_empty (boxes s) (boxes s') (get_box i))}"
    by (intro exI [of _ ?c] exI [of _ ?s']) (simp add: f)
qed

theorem fill_contract_witness:
  "shape init \<and> (0::nat) < 81 \<and> board init ! 0 = 0 \<and> (1::nat) \<le> 5 \<and> (5::nat) \<le> 9
   \<and> 5 \<in> rows init ! get_row 0 \<and> 5 \<in> cols init ! get_col 0 \<and> 5 \<in> boxes init ! get_box 0
   \<and> (\<exists>completed s'. fill 0 5 init = Inr (completed, s') \<and> board s' = (board init)[0 := 5]
         \<and> rows s' = (rows init)[get_row 0 := rows init ! get_row 0 - {5}]
         \<and> completed = {i. i < 81 \<and>
               (became_empty (rows init) (rows s') (get_row i)
                \<or> became_empty (cols init) (cols s') (get_col i)
                \<or> became_empty (boxes init) (boxes s') (get_box i))})"
proof -
  have h: "shape init" "(0::nat) < 81" "board init ! 0 = 0" "(1::nat) \<le> 5" "(5::nat) \<le> 9"
    by (simp_all add: shape_def init_def)
  have m: "5 \<in> rows init ! get_row 0 \<and> 5 \<in> cols init ! get_col 0 \<and> 5 \<in> boxes init ! get_box 0"
    by (simp add: init_def get_row_eq get_col_eq get_box_eq)
  from fill_contract [OF h] m h show ?thesis by blast
qed

section \<open>The backtracking solver\<close>

lemma set_get_opens: "set (get_opens s) = {i. i < 81 \<and> board s ! i = 0}"
  unfolding get_opens_def by auto

lemma set_get_opens_by_dof: "set (get_opens_by_dof rv s) = set (get_opens s)"
  unfolding get_opens_by_dof_def get_opens_def Let_def by (auto simp: image_iff)

lemma length_get_opens: "length (get_opens s) = card {i. i < 81 \<and> board s ! i = 0}"
proof -
  have "distinct (get_opens s)" unfolding get_opens_def by simp
  then show ?thesis using distinct_card [of "get_opens s"] set_get_opens [of s] by simp
qed

lemma opens_decrease:
  assumes "board s' = (board s)[sq := v]" "v \<noteq> 0" "sq < 81" "board s ! sq = 0" "length (board s) = 81"
  shows "length (get_opens s') < length (get_opens s)"
proof -
  have "{i. i < 81 \<and> board s' ! i = 0} \<subset> {i. i < 81 \<and> board s ! i = 0}"
    using assms by (auto simp: nth_list_update split: if_splits)
  then show ?thesis unfolding length_get_opens by (intro psubset_card_mono) simp_all
qed

lemma no_opens_full: "get_opens_by_dof rv s = [] \<longleftrightarrow> full (board s)"
proof -
  have "get_opens_by_dof rv s = [] \<longleftrightarrow> set (get_opens_by_dof rv s) = {}" by simp
  then show ?thesis unfolding set_get_opens_by_dof set_get_opens full_def by auto
qed

lemma extends_refl: "extends bd bd"
  unfolding extends_def by simp

lemma extends_trans: "extends a b \<Longrightarrow> extends b c \<Longrightarrow> extends a c"
  unfolding extends_def by auto

lemma extends_fill:
  assumes "bd ! sq = 0"
  shows "extends bd (bd[sq := v])"
  unfolding extends_def
proof (intro ballI impI)
  fix i assume "bd ! i \<noteq> 0"
  then have "sq \<noteq> i" using assms by auto
  then show "bd[sq := v] ! i = bd ! i" by simp
qed

lemma completion_mono: "extends bd bd' \<Longrightarrow> completion bd' c \<Longrightarrow> completion bd c"
  unfolding completion_def using extends_trans by blast

lemma completion_self:
  assumes "well_formed s" "full (board s)"
  shows "completion (board s) (board s)"
  using assms unfolding completion_def well_formed_def shape_def by (simp add: extends_refl)

lemma completion_step:
  assumes "completion bd c" "length bd = 81"
  shows "completion (bd[sq := c ! sq]) c"
proof -
  have "bd[sq := c ! sq] ! i \<noteq> 0 \<longrightarrow> c ! i = bd[sq := c ! sq] ! i" if "i \<in> {0 ..< 81}" for i
  proof (cases "i = sq")
    case True
    then show ?thesis using that assms(2) by simp
  next
    case False
    then show ?thesis using that assms(1) unfolding completion_def extends_def by simp
  qed
  then have "extends (bd[sq := c ! sq]) c" unfolding extends_def by blast
  then show ?thesis using assms(1) unfolding completion_def by simp
qed

lemma completion_not_placed:
  assumes f: "fam sqs u" and c: "completion bd c" "all_uniq sqs c" and sq: "sq < 81" "bd ! sq = 0"
  shows "c ! sq \<notin> placed bd (sqs (u sq))"
proof
  assume "c ! sq \<in> placed bd (sqs (u sq))"
  then obtain j where j: "j \<in> set (sqs (u sq))" "bd ! j = c ! sq" "c ! sq \<noteq> 0"
    unfolding placed_iff by blast
  have k: "u sq < 9" using f sq unfolding fam_def by simp
  then have sk: "set (sqs (u sq)) = {i. i < 81 \<and> u i = u sq}" and dk: "distinct (sqs (u sq))"
    using f unfolding fam_def by simp_all
  have j81: "j < 81" using j(1) sk by simp
  have "j \<noteq> sq" using j sq by auto
  moreover have "c ! j = c ! sq" using c(1) j j81 unfolding completion_def extends_def by simp
  moreover have "sq \<in> set (sqs (u sq))" using sk sq by simp
  moreover have "uniq c (sqs (u sq))" using c(2) k unfolding all_uniq_def by simp
  ultimately show False using j unfolding uniq_iff [OF dk] by metis
qed

lemma completion_option:
  assumes wf: "well_formed s" and c: "completion (board s) c" and sq: "sq < 81" "board s ! sq = 0"
  shows "c ! sq \<in> get_sq_options sq s"
proof -
  note d = well_formedD [OF wf]
  have u: "all_uniq get_sqs_in_row c" "all_uniq get_sqs_in_col c" "all_uniq get_sqs_in_box c"
    using c unfolding completion_def units_uniq_def by simp_all
  have "c ! sq < 10" "c ! sq \<noteq> 0" using c sq unfolding completion_def full_def by simp_all
  then have r: "1 \<le> c ! sq \<and> c ! sq \<le> 9" by arith
  show ?thesis
    using sq r cands_mem [OF fam_units(1) d(6) sq(1)] cands_mem [OF fam_units(2) d(7) sq(1)]
      cands_mem [OF fam_units(3) d(8) sq(1)]
      completion_not_placed [OF fam_units(1) c u(1) sq]
      completion_not_placed [OF fam_units(2) c u(2) sq]
      completion_not_placed [OF fam_units(3) c u(3) sq]
    by (simp add: get_sq_options_def rcb_split)
qed

lemma update_zero_id: "bd ! sq = (0::nat) \<Longrightarrow> bd[sq := 0] = bd"
  by (metis list_update_id)

lemma cands_ok_unique:
  assumes "cands_ok sqs bd xs" "cands_ok sqs bd ys" "length xs = 9" "length ys = 9"
  shows "xs = ys"
  using assms unfolding cands_ok_def by (intro nth_equalityI) simp_all

lemma well_formed_board_eq:
  assumes "well_formed a" "well_formed b" "board a = board b" "log a = log b"
  shows "a = b"
proof -
  note da = well_formedD [OF assms(1)] and db = well_formedD [OF assms(2)]
  have "rows a = rows b" using cands_ok_unique [OF da(6) _ da(2) db(2)] db(6) assms(3) by simp
  moreover have "cols a = cols b" using cands_ok_unique [OF da(7) _ da(3) db(3)] db(7) assms(3) by simp
  moreover have "boxes a = boxes b" using cands_ok_unique [OF da(8) _ da(4) db(4)] db(8) assms(3) by simp
  ultimately show ?thesis using assms(3,4) by simp
qed

lemma option_range:
  assumes "well_formed s" "sq < 81" "v \<in> get_sq_options sq s"
  shows "v \<noteq> 0" "board s ! sq = 0"
proof -
  show b: "board s ! sq = 0" using assms(3) by (auto simp: get_sq_options_def split: if_splits)
  have "v \<in> rows s ! get_row sq" using assms(3) b by (simp add: get_sq_options_def rcb_split)
  then show "v \<noteq> 0"
    using cands_mem [OF fam_units(1) well_formedD(6) [OF assms(1)] assms(2), of v] by simp
qed

lemma try_values_solve:
  assumes rec: "\<And>s1. well_formed s1 \<Longrightarrow> length (get_opens s1) < length (get_opens s) \<Longrightarrow> search_ok s1 (rec s1)"
    and wf: "well_formed s" and sq: "sq < 81"
    and vs: "set vs \<subseteq> get_sq_options sq s"
  shows "\<exists>ok s'. try_values rec sq vs s = Inr (ok, s') \<and>
          (if ok then well_formed s' \<and> completion (board s) (board s')
           else s' = s \<and> (\<forall>v \<in> set vs. \<nexists>c. completion ((board s)[sq := v]) c))"
  using vs
proof (induction vs)
  case Nil
  show ?case by (intro exI [of _ False] exI [of _ s]) simp
next
  case (Cons v vs)
  then have v: "v \<in> get_sq_options sq s" by simp
  note r = option_range [OF wf sq v]
  obtain c1 s1 where s1: "fill sq v s = Inr (c1, s1)" "well_formed s1"
      "board s1 = (board s)[sq := v]" "log s1 = log s"
    using fill_empty_well_formed [OF wf sq r(2) v] by blast
  have "length (get_opens s1) < length (get_opens s)"
    using opens_decrease [OF s1(3) r(1) sq r(2)] well_formedD(1) [OF wf] by simp
  from rec [OF s1(2) this] obtain ok s2 where s2: "rec s1 = Inr (ok, s2)"
      "if ok then well_formed s2 \<and> completion (board s1) (board s2)
       else s2 = s1 \<and> (\<nexists>c. completion (board s1) c)"
    unfolding search_ok_def by blast
  show ?case
  proof (cases ok)
    case True
    then have "completion ((board s)[sq := v]) (board s2)" using s2(2) s1(3) by simp
    then have "completion (board s) (board s2)"
      by (rule completion_mono [OF extends_fill [OF r(2)]])
    then show ?thesis using True s1(1) s2
      by (intro exI [of _ True] exI [of _ s2]) simp
  next
    case False
    then have e: "s2 = s1" and n: "\<nexists>c. completion ((board s)[sq := v]) c"
      using s2(2) s1(3) by simp_all
    obtain s3 where s3: "unfill sq s1 = Inr s3" "well_formed s3" "board s3 = (board s1)[sq := 0]"
        "log s3 = log s1"
      using unfill_well_formed [OF s1(2) sq] by blast
    have "board s3 = board s" using s3(3) s1(3) update_zero_id [OF r(2)] by simp
    then have "s3 = s" using well_formed_board_eq [OF s3(2) wf] s3(4) s1(4) by simp
    then have t: "try_values rec sq (v # vs) s = try_values rec sq vs s"
      using s1(1) s2(1) False e s3(1) by simp
    from Cons.IH Cons.prems obtain ok' s' where
      "try_values rec sq vs s = Inr (ok', s')"
      "if ok' then well_formed s' \<and> completion (board s) (board s')
       else s' = s \<and> (\<forall>v \<in> set vs. \<nexists>c. completion ((board s)[sq := v]) c)"
      by auto
    then show ?thesis unfolding t using n
      by (intro exI [of _ ok'] exI [of _ s']) (cases ok'; simp)
  qed
qed

lemma solve_search_ok:
  assumes "iter_ok en" "well_formed s" "length (get_opens s) < fuel"
  shows "search_ok s (solve en fuel s)"
  using assms(2,3)
proof (induction fuel arbitrary: s)
  case 0
  then show ?case by simp
next
  case (Suc fuel)
  note wf = Suc.prems(1)
  show ?case
  proof (cases "get_opens_by_dof False s")
    case Nil
    then have "full (board s)" using no_opens_full by simp
    then have "completion (board s) (board s)" using completion_self [OF wf] by simp
    then show ?thesis using Nil wf unfolding search_ok_def
      by (intro exI [of _ True] exI [of _ s]) simp
  next
    case (Cons sq rest)
    then have "sq \<in> set (get_opens_by_dof False s)" by simp
    then have "sq \<in> set (get_opens s)" unfolding set_get_opens_by_dof .
    then have sq: "sq < 81" "board s ! sq = 0" unfolding set_get_opens by simp_all
    have fin: "finite (get_sq_options sq s)"
    proof -
      have "get_sq_options sq s \<subseteq> {1..9}"
        using cands_mem [OF fam_units(1) well_formedD(6) [OF wf] sq(1)] sq
        by (auto simp: get_sq_options_def rcb_split)
      then show ?thesis using finite_subset by blast
    qed
    then have en: "set (en (get_sq_options sq s)) = get_sq_options sq s"
      using assms(1) unfolding iter_ok_def by simp
    have rec: "search_ok s1 (solve en fuel s1)"
      if "well_formed s1" "length (get_opens s1) < length (get_opens s)" for s1
      using Suc.IH [OF that(1)] that(2) Suc.prems(2) by simp
    from try_values_solve [of s "\<lambda>s1. solve en fuel s1", OF rec wf sq(1), of "en (get_sq_options sq s)"] en
    obtain ok s' where r: "try_values (\<lambda>s1. solve en fuel s1) sq (en (get_sq_options sq s)) s = Inr (ok, s')"
      "if ok then well_formed s' \<and> completion (board s) (board s')
       else s' = s \<and> (\<forall>v \<in> get_sq_options sq s. \<nexists>c. completion ((board s)[sq := v]) c)"
      by auto
    have "\<nexists>c. completion (board s) c" if "\<not> ok"
    proof
      assume "\<exists>c. completion (board s) c"
      then obtain c where c: "completion (board s) c" by blast
      have "c ! sq \<in> get_sq_options sq s" using completion_option [OF wf c sq] .
      moreover have "completion ((board s)[sq := c ! sq]) c"
        using completion_step [OF c well_formedD(1) [OF wf]] .
      ultimately show False using r(2) that by auto
    qed
    then show ?thesis using r Cons unfolding search_ok_def
      by (intro exI [of _ ok] exI [of _ s']) (cases ok; simp)
  qed
qed

lemma iter_ok_sorted: "iter_ok sorted_list_of_set"
  unfolding iter_ok_def by simp

lemma length_get_opens_le: "length (get_opens s) \<le> 81"
proof -
  have "length (get_opens s) \<le> length [0 ..< 81]" unfolding get_opens_def by (rule length_filter_le)
  then show ?thesis by simp
qed

text \<open>
  C1. On every well-formed board (every board that \<open>fill\<close> and \<open>unfill\<close> calls can
  reach is one), and for whatever order sets are iterated in, \<open>solve\<close> returns. It
  returns success exactly if the board has a legal completion; on success the final board
  has no empty square, satisfies the uniqueness constraint of every row, column and box,
  and keeps the given values; a board with no legal completion gives failure, with the
  state as it was at the call.
\<close>

theorem solve_correct:
  assumes "iter_ok en" "well_formed s"
  shows "\<exists>ok s'. solve en 82 s = Inr (ok, s')
           \<and> (ok \<longleftrightarrow> (\<exists>c. completion (board s) c))
           \<and> (ok \<longrightarrow> full (board s') \<and> units_uniq (board s') \<and> extends (board s) (board s'))
           \<and> (\<not> ok \<longrightarrow> s' = s)"
proof -
  have "length (get_opens s) < 82" using length_get_opens_le [of s] by simp
  from solve_search_ok [OF assms this] obtain ok s' where r: "solve en 82 s = Inr (ok, s')"
    "if ok then well_formed s' \<and> completion (board s) (board s')
     else s' = s \<and> (\<nexists>c. completion (board s) c)"
    unfolding search_ok_def by blast
  show ?thesis
  proof (cases ok)
    case True
    then have "completion (board s) (board s')" using r(2) by simp
    then show ?thesis using True r(1) unfolding completion_def
      by (intro exI [of _ True] exI [of _ s']) auto
  next
    case False
    then show ?thesis using r by (intro exI [of _ False] exI [of _ s']) simp
  qed
qed

theorem solve_correct_witness:
  "iter_ok sorted_list_of_set \<and> well_formed calls_state
   \<and> (\<exists>ok s'. solve sorted_list_of_set 82 calls_state = Inr (ok, s')
           \<and> (ok \<longleftrightarrow> (\<exists>c. completion (board calls_state) c))
           \<and> (ok \<longrightarrow> full (board s') \<and> units_uniq (board s')
                 \<and> extends (board calls_state) (board s'))
           \<and> (\<not> ok \<longrightarrow> s' = calls_state))"
  using solve_correct [OF iter_ok_sorted calls_state_well_formed] iter_ok_sorted
    calls_state_well_formed
  by blast

section \<open>Serialising and preloading\<close>

lemma for_each_append:
  "for_each (xs @ ys) body st =
     (case for_each xs body st of Inl e \<Rightarrow> Inl e | Inr st' \<Rightarrow> for_each ys body st')"
  by (induction xs arbitrary: st) (auto split: sum.splits)

lemma fold_append_concat: "fold (\<lambda>x acc. acc @ f x) xs a = a @ concat (map f xs)"
  by (induction xs arbitrary: a) simp_all

lemma to_str_concat: "to_str s = concat (map str_nat (board s))"
  unfolding to_str_def by (simp add: fold_append_concat)

lemma int_of_digit_char: "d < 10 \<Longrightarrow> int_of_char (digit_char d) = Inr d"
  unfolding int_of_char_def digit_char_def by simp

lemma map_int_digits:
  assumes "\<forall>d \<in> set ds. d < 10"
  shows "concat (map str_nat ds) = map digit_char ds" "map_int (map digit_char ds) = Inr ds"
  using assms by (induction ds) (simp_all add: str_nat.simps int_of_digit_char)

lemma prefix_update:
  fixes bd :: "nat list"
  assumes "k < length bd"
  shows "(take k bd @ replicate (length bd - k) 0)[k := bd ! k]
       = take (Suc k) bd @ replicate (length bd - Suc k) 0"
proof (rule nth_equalityI)
  show "length ((take k bd @ replicate (length bd - k) 0)[k := bd ! k])
      = length (take (Suc k) bd @ replicate (length bd - Suc k) 0)"
    using assms by simp
next
  fix i assume "i < length ((take k bd @ replicate (length bd - k) 0)[k := bd ! k])"
  then have i: "i < length bd" using assms by simp
  consider "i < k" | "i = k" | "k < i" by arith
  then show "(take k bd @ replicate (length bd - k) 0)[k := bd ! k] ! i
      = (take (Suc k) bd @ replicate (length bd - Suc k) 0) ! i"
  proof cases
    case 1
    then show ?thesis using assms by (simp add: nth_append)
  next
    case 2
    then show ?thesis using assms by (simp add: nth_append)
  next
    case 3
    then show ?thesis using assms i by (simp add: nth_append)
  qed
qed

lemma prefix_nth:
  fixes bd :: "nat list"
  assumes "k \<le> length bd" "j < length bd"
  shows "(take k bd @ replicate (length bd - k) 0) ! j = (if j < k then bd ! j else 0)"
  using assms by (simp add: nth_append)

lemma prefix_not_placed:
  assumes f: "fam sqs u" and un: "all_uniq sqs bd" and l: "length bd = 81"
    and k: "k < 81" "bd ! k \<noteq> 0"
  shows "bd ! k \<notin> placed (take k bd @ replicate (81 - k) 0) (sqs (u k))"
proof
  assume "bd ! k \<in> placed (take k bd @ replicate (81 - k) 0) (sqs (u k))"
  then obtain j where j: "j \<in> set (sqs (u k))" "(take k bd @ replicate (81 - k) 0) ! j = bd ! k"
    unfolding placed_iff by blast
  have uk: "u k < 9" using f k unfolding fam_def by simp
  then have sk: "set (sqs (u k)) = {i. i < 81 \<and> u i = u k}" and dk: "distinct (sqs (u k))"
    using f unfolding fam_def by simp_all
  have j81: "j < 81" using j(1) sk by simp
  have "(if j < k then bd ! j else 0) = bd ! k"
    using prefix_nth [of k bd j] l k j81 j(2) by simp
  then have "j < k" "bd ! j = bd ! k" using k(2) by (auto split: if_splits)
  moreover have "k \<in> set (sqs (u k))" using sk k by simp
  moreover have "uniq bd (sqs (u k))" using un uk unfolding all_uniq_def by simp
  ultimately show False using j(1) k(2) unfolding uniq_iff [OF dk] by (metis less_irrefl)
qed

lemma preload_prefix:
  assumes l: "length bd = 81" and r: "\<And>i. i < 81 \<Longrightarrow> bd ! i < 10" and un: "units_uniq bd"
    and k: "k \<le> 81"
  shows "\<exists>s'. for_each [0 ..< k]
           (\<lambda>i s. if bd ! i \<noteq> 0
               then (case fill i (bd ! i) s of Inl e \<Rightarrow> Inl e | Inr (_, s') \<Rightarrow> Inr s')
               else unfill i s) init = Inr s'
         \<and> well_formed s' \<and> board s' = take k bd @ replicate (81 - k) 0"
  using k
proof (induction k)
  case 0
  show ?case using well_formed_init by (simp add: init_fields)
next
  case (Suc k)
  let ?body = "\<lambda>i s. if bd ! i \<noteq> 0
               then (case fill i (bd ! i) s of Inl e \<Rightarrow> Inl e | Inr (_, s') \<Rightarrow> Inr s')
               else unfill i s"
  from Suc obtain s1 where s1: "for_each [0 ..< k] ?body init = Inr s1" "well_formed s1"
    "board s1 = take k bd @ replicate (81 - k) 0" by auto
  have k: "k < 81" using Suc.prems by simp
  note d = well_formedD [OF s1(2)]
  have z: "board s1 ! k = 0" unfolding s1(3) using prefix_nth [of k bd k] l k by simp
  have nxt: "(board s1)[k := bd ! k] = take (Suc k) bd @ replicate (81 - Suc k) 0"
    unfolding s1(3) using prefix_update [of k bd] l k by simp
  have "\<exists>s2. ?body k s1 = Inr s2 \<and> well_formed s2 \<and> board s2 = (board s1)[k := bd ! k]"
  proof (cases "bd ! k = 0")
    case True
    then show ?thesis using unfill_well_formed [OF s1(2) k] by auto
  next
    case False
    have u: "all_uniq get_sqs_in_row bd" "all_uniq get_sqs_in_col bd" "all_uniq get_sqs_in_box bd"
      using un unfolding units_uniq_def by simp_all
    have "1 \<le> bd ! k \<and> bd ! k \<le> 9" using False r [OF k] by arith
    moreover have "bd ! k \<notin> placed (board s1) (get_sqs_in_row (get_row k))"
      "bd ! k \<notin> placed (board s1) (get_sqs_in_col (get_col k))"
      "bd ! k \<notin> placed (board s1) (get_sqs_in_box (get_box k))"
      unfolding s1(3)
      using prefix_not_placed [OF fam_units(1) u(1) l k False]
        prefix_not_placed [OF fam_units(2) u(2) l k False]
        prefix_not_placed [OF fam_units(3) u(3) l k False] by simp_all
    ultimately have "bd ! k \<in> get_sq_options k s1"
      using z cands_mem [OF fam_units(1) d(6) k] cands_mem [OF fam_units(2) d(7) k]
        cands_mem [OF fam_units(3) d(8) k]
      by (simp add: get_sq_options_def rcb_split)
    from fill_empty_well_formed [OF s1(2) k z this] show ?thesis using False by auto
  qed
  then obtain s2 where s2: "?body k s1 = Inr s2" "well_formed s2" "board s2 = (board s1)[k := bd ! k]"
    by blast
  have "for_each [0 ..< Suc k] ?body init = Inr s2"
    using s1(1) s2(1) by (simp add: for_each_append)
  then show ?case using s2(2,3) nxt by auto
qed

lemma preload_list_valid:
  assumes "length bd = 81" "\<And>i. i < 81 \<Longrightarrow> bd ! i < 10" "units_uniq bd"
  shows "\<exists>s'. preload_list bd init = Inr s' \<and> well_formed s' \<and> board s' = bd"
  using preload_prefix [OF assms, of 81] assms(1) unfolding preload_list_def by simp

text \<open>
  C7. The string of a well-formed board (every board that \<open>fill\<close> and \<open>unfill\<close> calls
  can reach is one) has 81 characters, and preloading it into a fresh board succeeds and
  gives the same 81 values.
\<close>

theorem str_preload_roundtrip:
  assumes "well_formed s"
  shows "length (to_str s) = 81
       \<and> (\<exists>s'. preload (PyStr (to_str s)) init = Inr (0, s') \<and> board s' = board s)"
proof -
  note d = well_formedD [OF assms]
  have u: "units_uniq (board s)" using assms unfolding well_formed_def by simp
  have "\<forall>v \<in> set (board s). v < 10" using d(1,5) by (auto simp: in_set_conv_nth)
  then have m: "to_str s = map digit_char (board s)" "map_int (to_str s) = Inr (board s)"
    unfolding to_str_concat using map_int_digits by simp_all
  then have len: "length (to_str s) = 81" using d(1) by simp
  obtain s' where "preload_list (board s) init = Inr s'" "board s' = board s"
    using preload_list_valid [OF d(1) d(5) u] by blast
  then have "preload (PyStr (to_str s)) init = Inr (0, s')"
    unfolding preload_def using len m(2) by simp
  then show ?thesis using len \<open>board s' = board s\<close> by blast
qed

theorem str_preload_roundtrip_witness:
  "well_formed calls_state \<and> length (to_str calls_state) = 81
   \<and> (\<exists>s'. preload (PyStr (to_str calls_state)) init = Inr (0, s')
         \<and> board s' = board calls_state)"
  using str_preload_roundtrip [OF calls_state_well_formed] calls_state_well_formed by blast

section \<open>The deduction passes\<close>

lemma pop_member:
  assumes "iter_ok en" "card S = 1"
  shows "pop en S \<in> S"
proof -
  from assms(2) obtain x where x: "S = {x}" using card_1_singletonE by blast
  then have e: "set (en S) = {x}" using assms(1) unfolding iter_ok_def by simp
  then have "en S \<noteq> []" by auto
  then have "hd (en S) \<in> set (en S)" by (rule hd_in_set)
  then show ?thesis unfolding pop_def e unfolding x .
qed

lemma for_each_total:
  assumes "\<And>x st. x \<in> set xs \<Longrightarrow> P st \<Longrightarrow> \<exists>st'. body x st = Inr st' \<and> P st'"
    and "P st"
  shows "\<exists>st'. for_each xs body st = Inr st' \<and> P st'"
  using assms
proof (induction xs arbitrary: st)
  case Nil
  then show ?case by simp
next
  case (Cons x xs)
  have "\<exists>st'. body x st = Inr st' \<and> P st'"
    by (rule Cons.prems(1)) (simp_all add: Cons.prems(2))
  then obtain st1 where s1: "body x st = Inr st1" "P st1" by blast
  have step: "\<exists>st'. body y st = Inr st' \<and> P st'" if "y \<in> set xs" "P st" for y st
    by (rule Cons.prems(1)) (simp_all add: that)
  have "\<exists>st'. for_each xs body st1 = Inr st' \<and> P st'"
    by (rule Cons.IH [OF step s1(2)])
  then show ?case using s1(1) by simp
qed

lemma keeps_refl: "well_formed s \<Longrightarrow> keeps s s"
  unfolding keeps_def by (simp add: extends_refl)

lemma keeps_fill:
  assumes k: "keeps s0 s" and i: "i < 81" and v: "v \<in> get_sq_options i s"
  shows "\<exists>c s'. fill i v s = Inr (c, s') \<and> keeps s0 s' \<and> board s' = (board s)[i := v]"
proof -
  have wf: "well_formed s" using k unfolding keeps_def by simp
  note r = option_range [OF wf i v]
  obtain c s' where s': "fill i v s = Inr (c, s')" "well_formed s'" "board s' = (board s)[i := v]"
    "log s' = log s"
    using fill_empty_well_formed [OF wf i r(2) v] by blast
  have "extends (board s0) (board s')"
    using k extends_trans [OF _ extends_fill [OF r(2), of v]] s'(3) unfolding keeps_def by simp
  then show ?thesis using s' k unfolding keeps_def by simp
qed

lemma intersect_body_keeps:
  assumes en: "iter_ok en" and k: "keeps s0 s" and i: "i < 81"
  shows "\<exists>n' s'. intersect_body en i (n, s) = Inr (n', s') \<and> keeps s0 s'"
proof (cases "card (get_sq_options i s) = 1")
  case True
  from keeps_fill [OF k i pop_member [OF en True]] True show ?thesis
    unfolding intersect_body_def by (auto simp: Let_def)
next
  case False
  then show ?thesis using k unfolding intersect_body_def by (simp add: Let_def)
qed

lemma intersect_keeps:
  assumes en: "iter_ok en" and k: "keeps s0 s"
  shows "\<exists>n s'. intersect en s = Inr (n, s') \<and> keeps s0 s'"
proof -
  have "\<exists>st'. for_each [0 ..< 81] (intersect_body en) (0, s) = Inr st' \<and> keeps s0 (snd st')"
  proof (rule for_each_total [where P = "\<lambda>st. keeps s0 (snd st)"])
    fix x :: nat and st :: "nat \<times> sudoku"
    assume "x \<in> set [0 ..< 81]" "keeps s0 (snd st)"
    then show "\<exists>st'. intersect_body en x st = Inr st' \<and> keeps s0 (snd st')"
      using intersect_body_keeps [OF en, of s0 "snd st" x "fst st"] by auto
  qed (simp add: k)
  then show ?thesis unfolding intersect_def by auto
qed

lemma sub_opt1_subset: "sub_opt1 squares sq1 s \<subseteq> get_sq_options sq1 s"
proof -
  have "fold (\<lambda>sq2 opt1. if board s ! sq2 \<noteq> 0 \<or> sq2 = sq1 then opt1
                       else opt1 - get_sq_options sq2 s) squares A \<subseteq> A" for A
  proof (induction squares arbitrary: A)
    case Nil
    show ?case by simp
  next
    case (Cons sq2 squares)
    have "fold (\<lambda>sq2 opt1. if board s ! sq2 \<noteq> 0 \<or> sq2 = sq1 then opt1
                       else opt1 - get_sq_options sq2 s) squares
            (if board s ! sq2 \<noteq> 0 \<or> sq2 = sq1 then A else A - get_sq_options sq2 s)
          \<subseteq> (if board s ! sq2 \<noteq> 0 \<or> sq2 = sq1 then A else A - get_sq_options sq2 s)"
      by (rule Cons.IH)
    also have "\<dots> \<subseteq> A" by auto
    finally show ?case by simp
  qed
  then show ?thesis unfolding sub_opt1_def .
qed

lemma sub_factor_body_keeps:
  assumes en: "iter_ok en" and k: "keeps s0 s" and i: "sq1 < 81"
  shows "\<exists>n' s'. sub_factor_body en squares sq1 (n, s) = Inr (n', s') \<and> keeps s0 s'"
proof (cases "board s ! sq1 = 0 \<and> card (sub_opt1 squares sq1 s) = 1")
  case True
  then have "pop en (sub_opt1 squares sq1 s) \<in> get_sq_options sq1 s"
    using pop_member [OF en] sub_opt1_subset by blast
  from keeps_fill [OF k i this] True show ?thesis
    unfolding sub_factor_body_def by (auto simp: Let_def)
next
  case False
  then show ?thesis using k unfolding sub_factor_body_def by (auto simp: Let_def)
qed

lemma sub_factor_keeps:
  assumes en: "iter_ok en" and k: "keeps s0 s" and sqs: "set squares \<subseteq> {..< 81}"
  shows "\<exists>n s'. sub_factor en squares s = Inr (n, s') \<and> keeps s0 s'"
proof -
  have "\<exists>st'. for_each squares (sub_factor_body en squares) (0, s) = Inr st' \<and> keeps s0 (snd st')"
  proof (rule for_each_total [where P = "\<lambda>st. keeps s0 (snd st)"])
    fix x :: nat and st :: "nat \<times> sudoku"
    assume "x \<in> set squares" "keeps s0 (snd st)"
    then show "\<exists>st'. sub_factor_body en squares x st = Inr st' \<and> keeps s0 (snd st')"
      using sub_factor_body_keeps [OF en, of s0 "snd st" x squares "fst st"] sqs by auto
  qed (simp add: k)
  then show ?thesis unfolding sub_factor_def by auto
qed

lemma units_in_range:
  assumes "k < 9"
  shows "set (get_sqs_in_row k) \<subseteq> {..< 81}" "set (get_sqs_in_col k) \<subseteq> {..< 81}"
    "set (get_sqs_in_box k) \<subseteq> {..< 81}"
  using assms set_row' set_col' set_box' by auto

lemma add_sub_factor_pass:
  assumes en: "iter_ok en" and k: "keeps s0 (snd st)" and sqs: "\<And>k. k < 9 \<Longrightarrow> set (sqs k) \<subseteq> {..< 81}"
  shows "\<exists>st'. for_each [0 ..< 9] (\<lambda>u. add_sub_factor en (sqs u)) st = Inr st' \<and> keeps s0 (snd st')"
proof (rule for_each_total [where P = "\<lambda>st. keeps s0 (snd st)"])
  fix x :: nat and st :: "nat \<times> sudoku"
  assume "x \<in> set [0 ..< 9]" "keeps s0 (snd st)"
  then show "\<exists>st'. add_sub_factor en (sqs x) st = Inr st' \<and> keeps s0 (snd st')"
    using sub_factor_keeps [OF en, of s0 "snd st" "sqs x"] sqs [of x]
    unfolding add_sub_factor_def by (cases st) auto
qed (simp add: k)

lemma subtract_keeps:
  assumes en: "iter_ok en" and k: "keeps s0 s"
  shows "\<exists>n s'. subtract en s = Inr (n, s') \<and> keeps s0 s'"
proof -
  obtain st1 where 1: "for_each [0 ..< 9] (\<lambda>box. add_sub_factor en (get_sqs_in_box box)) (0, s) = Inr st1"
      "keeps s0 (snd st1)"
    using add_sub_factor_pass [OF en, of s0 "(0, s)" get_sqs_in_box] k units_in_range(3) by auto
  obtain st2 where 2: "for_each [0 ..< 9] (\<lambda>row. add_sub_factor en (get_sqs_in_row row)) st1 = Inr st2"
      "keeps s0 (snd st2)"
    using add_sub_factor_pass [OF en 1(2), of get_sqs_in_row] units_in_range(1) by auto
  obtain st3 where 3: "for_each [0 ..< 9] (\<lambda>col. add_sub_factor en (get_sqs_in_col col)) st2 = Inr st3"
      "keeps s0 (snd st3)"
    using add_sub_factor_pass [OF en 2(2), of get_sqs_in_col] units_in_range(2) by auto
  show ?thesis unfolding subtract_def using 1 2 3 by (cases st3) auto
qed

lemma options_legal:
  assumes "v \<in> get_sq_options i s"
  shows "v \<in> rows s ! get_row i \<inter> cols s ! get_col i \<inter> boxes s ! get_box i \<and> board s ! i = 0"
  using assms by (auto simp: get_sq_options_def rcb_split split: if_splits)

text \<open>
  C5. On a well-formed board, the value that the naked-single pass (\<open>intersect\<close>) or the
  hidden-single pass (\<open>\_sub\_factor\<close>) hands to \<open>fill\<close> is, at that moment, in the row
  set, the column set and the box set of its empty square. So no assertion of \<open>fill\<close>
  fails in a deduction pass: \<open>intersect\<close>, \<open>\_sub\_factor\<close> and \<open>subtract\<close> return, and the
  board they leave is well formed again, with no value twice in a row, column or box.
\<close>

theorem deduction_fills_legal:
  assumes en: "iter_ok en" and wf: "well_formed s"
  shows "(\<forall>i < 81. \<forall>n. card (get_sq_options i s) = 1 \<longrightarrow>
            pop en (get_sq_options i s)
              \<in> rows s ! get_row i \<inter> cols s ! get_col i \<inter> boxes s ! get_box i
            \<and> board s ! i = 0
            \<and> (\<exists>c s'. fill i (pop en (get_sq_options i s)) s = Inr (c, s')
                  \<and> intersect_body en i (n, s) = Inr (n + 1, s') \<and> well_formed s'))
       \<and> (\<forall>squares. \<forall>sq1 < 81. \<forall>n. board s ! sq1 = 0 \<and> card (sub_opt1 squares sq1 s) = 1 \<longrightarrow>
            pop en (sub_opt1 squares sq1 s)
              \<in> rows s ! get_row sq1 \<inter> cols s ! get_col sq1 \<inter> boxes s ! get_box sq1
            \<and> (\<exists>c s'. fill sq1 (pop en (sub_opt1 squares sq1 s)) s = Inr (c, s')
                  \<and> sub_factor_body en squares sq1 (n, s) = Inr (n + 1, s') \<and> well_formed s'))
       \<and> (\<exists>n s'. intersect en s = Inr (n, s') \<and> well_formed s' \<and> units_uniq (board s'))
       \<and> (\<forall>squares. set squares \<subseteq> {..< 81} \<longrightarrow>
            (\<exists>n s'. sub_factor en squares s = Inr (n, s') \<and> well_formed s' \<and> units_uniq (board s')))
       \<and> (\<exists>n s'. subtract en s = Inr (n, s') \<and> well_formed s' \<and> units_uniq (board s'))"
proof -
  have a: "\<forall>i < 81. \<forall>n. card (get_sq_options i s) = 1 \<longrightarrow>
            pop en (get_sq_options i s)
              \<in> rows s ! get_row i \<inter> cols s ! get_col i \<inter> boxes s ! get_box i
            \<and> board s ! i = 0
            \<and> (\<exists>c s'. fill i (pop en (get_sq_options i s)) s = Inr (c, s')
                  \<and> intersect_body en i (n, s) = Inr (n + 1, s') \<and> well_formed s')"
  proof (intro allI impI)
    fix i n :: nat
    assume i: "i < 81" and c: "card (get_sq_options i s) = 1"
    have m: "pop en (get_sq_options i s) \<in> get_sq_options i s" using pop_member [OF en c] .
    obtain cs s' where f: "fill i (pop en (get_sq_options i s)) s = Inr (cs, s')" "keeps s s'"
      using keeps_fill [OF keeps_refl [OF wf] i m] by blast
    then have "intersect_body en i (n, s) = Inr (n + 1, s')"
      unfolding intersect_body_def using c by (simp add: Let_def)
    then show "pop en (get_sq_options i s)
              \<in> rows s ! get_row i \<inter> cols s ! get_col i \<inter> boxes s ! get_box i
            \<and> board s ! i = 0
            \<and> (\<exists>c s'. fill i (pop en (get_sq_options i s)) s = Inr (c, s')
                  \<and> intersect_body en i (n, s) = Inr (n + 1, s') \<and> well_formed s')"
      using options_legal [OF m] f unfolding keeps_def by blast
  qed
  have b: "\<forall>squares. \<forall>sq1 < 81. \<forall>n. board s ! sq1 = 0 \<and> card (sub_opt1 squares sq1 s) = 1 \<longrightarrow>
            pop en (sub_opt1 squares sq1 s)
              \<in> rows s ! get_row sq1 \<inter> cols s ! get_col sq1 \<inter> boxes s ! get_box sq1
            \<and> (\<exists>c s'. fill sq1 (pop en (sub_opt1 squares sq1 s)) s = Inr (c, s')
                  \<and> sub_factor_body en squares sq1 (n, s) = Inr (n + 1, s') \<and> well_formed s')"
  proof (intro allI impI)
    fix squares and sq1 n :: nat
    assume i: "sq1 < 81" and c: "board s ! sq1 = 0 \<and> card (sub_opt1 squares sq1 s) = 1"
    have m: "pop en (sub_opt1 squares sq1 s) \<in> get_sq_options sq1 s"
      using pop_member [OF en] c sub_opt1_subset by blast
    obtain cs s' where f: "fill sq1 (pop en (sub_opt1 squares sq1 s)) s = Inr (cs, s')" "keeps s s'"
      using keeps_fill [OF keeps_refl [OF wf] i m] by blast
    then have "sub_factor_body en squares sq1 (n, s) = Inr (n + 1, s')"
      unfolding sub_factor_body_def using c by (simp add: Let_def)
    then show "pop en (sub_opt1 squares sq1 s)
              \<in> rows s ! get_row sq1 \<inter> cols s ! get_col sq1 \<inter> boxes s ! get_box sq1
            \<and> (\<exists>c s'. fill sq1 (pop en (sub_opt1 squares sq1 s)) s = Inr (c, s')
                  \<and> sub_factor_body en squares sq1 (n, s) = Inr (n + 1, s') \<and> well_formed s')"
      using options_legal [OF m] f unfolding keeps_def by blast
  qed
  have c: "\<exists>n s'. intersect en s = Inr (n, s') \<and> well_formed s' \<and> units_uniq (board s')"
    using intersect_keeps [OF en keeps_refl [OF wf]] unfolding keeps_def well_formed_def by blast
  have d: "\<forall>squares. set squares \<subseteq> {..< 81} \<longrightarrow>
            (\<exists>n s'. sub_factor en squares s = Inr (n, s') \<and> well_formed s' \<and> units_uniq (board s'))"
    using sub_factor_keeps [OF en keeps_refl [OF wf]] unfolding keeps_def well_formed_def by blast
  have e: "\<exists>n s'. subtract en s = Inr (n, s') \<and> well_formed s' \<and> units_uniq (board s')"
    using subtract_keeps [OF en keeps_refl [OF wf]] unfolding keeps_def well_formed_def by blast
  show ?thesis by (intro conjI a b c d e)
qed

section \<open>The human-style solver undoes a failed call\<close>

lemma well_formed_log [simp]: "well_formed (s\<lparr> log := l \<rparr>) = well_formed s"
  unfolding well_formed_def shape_def sets_ok_def by simp

lemma add_log_simps [simp]:
  "well_formed (add_log tag t s) = well_formed s" "board (add_log tag t s) = board s"
  unfolding add_log_def by simp_all

lemma until_zero_keeps:
  assumes pass: "\<And>s. keeps s0 s \<Longrightarrow> \<exists>n s'. pass s = Inr (n, s') \<and> keeps s0 s'"
    and k: "keeps s0 s" and r: "until_zero fuel pass t s = Inr (t', s')"
  shows "keeps s0 s'"
  using k r
proof (induction fuel arbitrary: t s)
  case 0
  then show ?case by simp
next
  case (Suc fuel)
  from pass [OF Suc.prems(1)] obtain n s1 where s1: "pass s = Inr (n, s1)" "keeps s0 s1" by blast
  show ?case
  proof (cases "n = 0")
    case True
    then show ?thesis using Suc.prems(2) s1 by simp
  next
    case False
    then have "until_zero fuel pass (t + n) s1 = Inr (t', s')" using Suc.prems(2) s1(1) by simp
    then show ?thesis using Suc.IH [OF s1(2)] by simp
  qed
qed

lemma try_values_restore:
  assumes rec: "\<And>s1 s'. well_formed s1 \<Longrightarrow> rec s1 = Inr (False, s')
                  \<Longrightarrow> well_formed s' \<and> board s' = board s1"
    and wf: "well_formed s" and sq: "sq < 81" "board s ! sq = 0"
    and r: "try_values rec sq vs s = Inr (False, s')"
  shows "well_formed s' \<and> board s' = board s"
  using wf sq(2) r
proof (induction vs arbitrary: s)
  case Nil
  then show ?case by simp
next
  case (Cons v vs)
  from Cons.prems(3) obtain c s1 where f: "fill sq v s = Inr (c, s1)"
    by (auto split: sum.splits)
  note s1 = fill_result_well_formed [OF Cons.prems(1) f]
  from Cons.prems(3) f obtain s2 where r2: "rec s1 = Inr (False, s2)"
    by (auto split: sum.splits bool.splits if_splits)
  note s2 = rec [OF conjunct1 [OF s1] r2]
  from Cons.prems(3) f r2 obtain s3 where u: "unfill sq s2 = Inr s3"
    by (auto split: sum.splits)
  obtain s3' where s3': "unfill sq s2 = Inr s3'" "well_formed s3'" "board s3' = (board s2)[sq := 0]"
    using unfill_well_formed [OF conjunct1 [OF s2] sq(1)] by blast
  have "board s3 = (board s)[sq := 0]" using u s3' s2 s1 by simp
  then have b3: "board s3 = board s" using update_zero_id [OF Cons.prems(2)] by simp
  have w3: "well_formed s3" using u s3' by simp
  have "try_values rec sq vs s3 = Inr (False, s')" using Cons.prems(3) f r2 u by simp
  from Cons.IH [OF w3 _ this] b3 Cons.prems(2) show ?case by simp
qed

lemma for_each_unfill:
  assumes "well_formed s" "for_each xs unfill s = Inr s'"
  shows "well_formed s' \<and> log s' = log s
       \<and> (\<forall>i < 81. board s' ! i = (if i \<in> set xs then 0 else board s ! i))"
  using assms
proof (induction xs arbitrary: s)
  case Nil
  then show ?case by simp
next
  case (Cons x xs)
  from Cons.prems(2) obtain s1 where u: "unfill x s = Inr s1" "for_each xs unfill s1 = Inr s'"
    by (auto split: sum.splits)
  then have x: "x < 81" by (auto simp: unfill_def split: if_splits)
  obtain s1' where s1': "unfill x s = Inr s1'" "well_formed s1'" "board s1' = (board s)[x := 0]"
      "log s1' = log s"
    using unfill_well_formed [OF Cons.prems(1) x] by blast
  then have s1: "well_formed s1" "board s1 = (board s)[x := 0]" "log s1 = log s" using u(1) by simp_all
  from Cons.IH [OF s1(1) u(2)] have ih: "well_formed s'" "log s' = log s1"
    "\<And>i. i < 81 \<Longrightarrow> board s' ! i = (if i \<in> set xs then 0 else board s1 ! i)" by simp_all
  have "board s' ! i = (if i \<in> set (x # xs) then 0 else board s ! i)" if "i < 81" for i
    using ih(3) [OF that] s1(2) that well_formedD(1) [OF Cons.prems(1)]
    by (cases "i = x") simp_all
  then show ?case using ih(1,2) s1(3) by simp
qed

lemma log_add_log: "log (add_log tag t s) = log s @ token tag t"
  unfolding add_log_def token_def by simp

lemma hsolve_restore:
  assumes en: "iter_ok en" and wf: "well_formed s" and r: "hsolve en fuel s = Inr (False, s')"
  shows "well_formed s' \<and> board s' = board s
       \<and> (\<exists>t t'. log s' = log s @ token ''i'' t @ token ''s'' t')"
  using wf r
proof (induction fuel arbitrary: s s')
  case 0
  then show ?case by simp
next
  case (Suc fuel)
  note wf = Suc.prems(1) and r = Suc.prems(2)
  have ne: "length (get_opens s) \<noteq> 0" using r by (auto split: if_splits)
  note [simp del] = until_zero.simps
  obtain t sa where a: "until_zero (Suc fuel) (intersect en) 0 s = Inr (t, sa)"
  proof (cases "until_zero (Suc fuel) (intersect en) 0 s")
    case (Inl e)
    then show ?thesis using r ne by (simp add: Let_def)
  next
    case (Inr p)
    then show ?thesis using that by (cases p) simp
  qed
  have ka: "keeps s sa"
    using until_zero_keeps [OF intersect_keeps [OF en] keeps_refl [OF wf] a] .
  let ?sa = "add_log ''i'' t sa"
  have wa: "well_formed ?sa" using ka unfolding keeps_def by simp
  obtain t' sb where b: "until_zero (Suc fuel) (subtract en) 0 ?sa = Inr (t', sb)"
  proof (cases "until_zero (Suc fuel) (subtract en) 0 ?sa")
    case (Inl e)
    then show ?thesis using r ne a by (simp add: Let_def)
  next
    case (Inr p)
    then show ?thesis using that by (cases p) simp
  qed
  have kb: "keeps ?sa sb"
    using until_zero_keeps [OF subtract_keeps [OF en] keeps_refl [OF wa] b] .
  let ?sc = "add_log ''s'' t' sb"
  have wc: "well_formed ?sc" using kb unfolding keeps_def by simp
  have ext: "extends (board s) (board ?sc)"
    using ka kb extends_trans [of "board s" "board sa" "board sb"] unfolding keeps_def by simp
  obtain sq rest where o: "get_opens_by_dof True ?sc = sq # rest"
    using r ne a b by (cases "get_opens_by_dof True ?sc") (simp_all add: Let_def)
  then have "sq \<in> set (get_opens_by_dof True ?sc)" by simp
  then have "sq \<in> set (get_opens ?sc)" unfolding set_get_opens_by_dof .
  then have sq: "sq < 81" "board ?sc ! sq = 0" unfolding set_get_opens by simp_all
  let ?rec = "\<lambda>s1. hsolve en fuel (s1\<lparr> log := log ?sc @ ''_r_ '' \<rparr>)"
  obtain sd where d: "try_values ?rec sq (en (get_sq_options sq ?sc)) ?sc = Inr (False, sd)"
  proof (cases "try_values ?rec sq (en (get_sq_options sq ?sc)) ?sc")
    case (Inl e)
    then show ?thesis using r ne a b o by (simp add: Let_def)
  next
    case (Inr p)
    obtain ok sd where p: "p = (ok, sd)" by (cases p)
    show ?thesis
    proof (cases ok)
      case True
      then show ?thesis using r ne a b o Inr p by (simp add: Let_def)
    next
      case False
      then show ?thesis using that Inr p by simp
    qed
  qed
  have rec: "well_formed s2 \<and> board s2 = board s1"
    if "well_formed s1" "?rec s1 = Inr (False, s2)" for s1 s2
    using Suc.IH [of "s1\<lparr> log := log ?sc @ ''_r_ '' \<rparr>" s2] that by simp
  have sd: "well_formed sd" "board sd = board ?sc"
    using try_values_restore [of ?rec, OF rec wc sq d] by simp_all
  let ?se = "sd\<lparr> log := log ?sc \<rparr>"
  let ?unwind = "set (get_opens s) - set (get_opens ?se)"
  have f: "for_each (en ?unwind) unfill ?se = Inr s'"
  proof (cases "for_each (en ?unwind) unfill ?se")
    case (Inl e)
    then show ?thesis using r ne a b o d by (simp add: Let_def)
  next
    case (Inr sf)
    then show ?thesis using r ne a b o d by (simp add: Let_def)
  qed
  have we: "well_formed ?se" using sd(1) by simp
  have "finite ?unwind" by simp
  then have eu: "set (en ?unwind) = ?unwind" using en unfolding iter_ok_def by blast
  note u = for_each_unfill [OF we f]
  have l: "length (board s') = 81" "length (board s) = 81"
    using u well_formedD(1) wf by simp_all
  have "board s' ! i = board s ! i" if i: "i < 81" for i
  proof -
    have m: "i \<in> ?unwind \<longleftrightarrow> board s ! i = 0 \<and> board ?sc ! i \<noteq> 0"
      unfolding set_get_opens using i sd(2) by simp
    have "board s' ! i = (if i \<in> ?unwind then 0 else board ?se ! i)"
      using u i eu by simp
    then have e: "board s' ! i = (if board s ! i = 0 \<and> board ?sc ! i \<noteq> 0 then 0 else board ?sc ! i)"
      unfolding m using sd(2) by simp
    show ?thesis
    proof (cases "board s ! i = 0")
      case True
      then show ?thesis using e by simp
    next
      case False
      then have "board ?sc ! i = board s ! i" using ext i unfolding extends_def by simp
      then show ?thesis using e False by simp
    qed
  qed
  then have "board s' = board s" using l by (intro nth_equalityI) simp_all
  moreover have "log s' = log s @ token ''i'' t @ token ''s'' t'"
    using u ka kb unfolding keeps_def by (simp add: log_add_log)
  ultimately show ?case using u by blast
qed

section \<open>Concrete boards, evaluated\<close>

lemma preload_list_well_formed:
  assumes "well_formed s" "preload_list bd s = Inr s'"
  shows "well_formed s'"
proof (rule for_each_inv [where P = well_formed, OF _ assms(1) assms(2) [unfolded preload_list_def]])
  fix x :: nat and st st' :: sudoku
  assume wf: "well_formed st"
    and b: "(if bd ! x \<noteq> 0
             then (case fill x (bd ! x) st of Inl e \<Rightarrow> Inl e | Inr (_, s') \<Rightarrow> Inr s')
             else unfill x st) = Inr st'"
  show "well_formed st'"
  proof (cases "bd ! x \<noteq> 0")
    case True
    then show ?thesis using b fill_result_well_formed [OF wf] by (auto split: sum.splits)
  next
    case False
    then have u: "unfill x st = Inr st'" using b by simp
    then have "x < 81" by (auto simp: unfill_def split: if_splits)
    then show ?thesis using unfill_well_formed [OF wf] u by fastforce
  qed
qed

lemma preload_well_formed:
  assumes "well_formed s" "preload a s = Inr (r, s')"
  shows "well_formed s'"
  using assms preload_list_well_formed [OF assms(1)]
  unfolding preload_def by (auto split: pyarg.splits sum.splits if_splits)

lemma dead_end_preload: "preload (PyStr dead_end_str) init = Inr (0, dead_end)"
  by code_simp

lemma dead_end_well_formed: "well_formed dead_end"
  using preload_well_formed [OF well_formed_init dead_end_preload] .

lemma hsolve_dead_end:
  "hsolve sorted_list_of_set 82 dead_end = Inr (False, dead_end\<lparr> log := ''i01 '' \<rparr>)"
  by code_simp

lemma classic_preload: "preload (PyStr classic_puzzle) init = Inr (0, classic_state)"
  by code_simp

section \<open>The example puzzle\<close>

lemma en_singleton:
  assumes "iter_ok en"
  shows "en {x} = [x]"
proof -
  have s: "set (en {x}) = {x}" and d: "distinct (en {x})"
    using assms unfolding iter_ok_def by simp_all
  have "length (en {x}) = 1" using distinct_card [OF d] s by simp
  then obtain y where "en {x} = [y]" by (cases "en {x}") auto
  then show ?thesis using s by simp
qed

lemma solve_forced_sound:
  assumes en: "iter_ok en" and r: "solve_forced fuel s = Some s'"
  shows "solve en fuel s = Inr (True, s')"
  using r
proof (induction fuel arbitrary: s)
  case 0
  then show ?case by simp
next
  case (Suc fuel)
  show ?case
  proof (cases "get_opens_by_dof False s")
    case Nil
    then show ?thesis using Suc.prems by simp
  next
    case (Cons sq rest)
    have c: "card (get_sq_options sq s) = 1"
      using Suc.prems Cons by (simp add: Let_def split: if_splits)
    then obtain x where x: "get_sq_options sq s = {x}" using card_1_singletonE by blast
    have p: "pop sorted_list_of_set (get_sq_options sq s) = x" unfolding x pop_def by simp
    obtain cs s1 where f: "fill sq x s = Inr (cs, s1)" "solve_forced fuel s1 = Some s'"
    proof (cases "fill sq x s")
      case (Inl e)
      then show ?thesis using Suc.prems Cons c p by (simp add: Let_def)
    next
      case (Inr q)
      then show ?thesis using that Suc.prems Cons c p by (cases q) (simp add: Let_def)
    qed
    have "solve en fuel s1 = Inr (True, s')" using Suc.IH [OF f(2)] .
    then show ?thesis using Cons f(1) x en_singleton [OF en, of x] by simp
  qed
qed

lemma classic_forced:
  "(case solve_forced 82 classic_state of None \<Rightarrow> False
    | Some s' \<Rightarrow> to_str s' = classic_solution)"
  by code_simp

text \<open>
  C6. Preloading the example puzzle into a fresh board succeeds, \<open>solve\<close> then returns
  success, whatever order sets are iterated in, and the string of the final board is the
  expected solution.
\<close>

theorem classic_puzzle_solved:
  assumes "iter_ok en"
  shows "\<exists>s s'. preload (PyStr classic_puzzle) init = Inr (0, s)
           \<and> solve en 82 s = Inr (True, s') \<and> to_str s' = classic_solution"
proof -
  obtain s' where s': "solve_forced 82 classic_state = Some s'" "to_str s' = classic_solution"
    using classic_forced by (cases "solve_forced 82 classic_state") simp_all
  have "solve en 82 classic_state = Inr (True, s')"
    using solve_forced_sound [OF assms s'(1)] .
  then show ?thesis using classic_preload s'(2) by blast
qed

theorem classic_puzzle_solved_witness:
  "iter_ok sorted_list_of_set
   \<and> (\<exists>s s'. preload (PyStr classic_puzzle) init = Inr (0, s)
         \<and> solve sorted_list_of_set 82 s = Inr (True, s') \<and> to_str s' = classic_solution)"
  using classic_puzzle_solved [OF iter_ok_sorted] iter_ok_sorted by blast

section \<open>Failed calls of hsolve, and lists handed to preload\<close>

text \<open>
  C4. When a call of \<open>hsolve\<close> on a well-formed board returns failure, the 81 values of
  the board and all 27 sets are what they were when the call started: every square filled
  during the call, by a guess or by a deduction pass, has been unfilled again.
\<close>

theorem hsolve_failure_restores:
  assumes "iter_ok en" "well_formed s" "hsolve en fuel s = Inr (False, s')"
  shows "board s' = board s \<and> rows s' = rows s \<and> cols s' = cols s \<and> boxes s' = boxes s"
proof -
  have r: "well_formed s'" "board s' = board s" using hsolve_restore [OF assms] by simp_all
  have "s'\<lparr> log := log s \<rparr> = s"
    by (rule well_formed_board_eq) (simp_all add: r assms(2))
  then have "rows (s'\<lparr> log := log s \<rparr>) = rows s" "cols (s'\<lparr> log := log s \<rparr>) = cols s"
    "boxes (s'\<lparr> log := log s \<rparr>) = boxes s" by simp_all
  then show ?thesis using r(2) by simp
qed

theorem hsolve_failure_restores_witness:
  "iter_ok sorted_list_of_set \<and> well_formed dead_end
   \<and> hsolve sorted_list_of_set 82 dead_end = Inr (False, dead_end\<lparr> log := ''i01 '' \<rparr>)
   \<and> board (dead_end\<lparr> log := ''i01 '' \<rparr>) = board dead_end
   \<and> rows (dead_end\<lparr> log := ''i01 '' \<rparr>) = rows dead_end
   \<and> cols (dead_end\<lparr> log := ''i01 '' \<rparr>) = cols dead_end
   \<and> boxes (dead_end\<lparr> log := ''i01 '' \<rparr>) = boxes dead_end"
  using hsolve_failure_restores [OF iter_ok_sorted dead_end_well_formed hsolve_dead_end]
    iter_ok_sorted dead_end_well_formed hsolve_dead_end
  by blast

text \<open>
  C9 fails on the code. On the board \<open>dead_end\<close> (reached by \<open>preload\<close>, log empty) the
  call of \<open>hsolve\<close> fills square 80 by the naked-single pass, finds no option for
  square 0, unfills square 80 and returns failure; the log it leaves is \<open>i01\<close> followed
  by a blank, not the empty log of the call's entry. The variable \<open>savelog\<close>, first set at
  the entry of \<open>hsolve\<close>, is set again after the deduction passes, and that later value
  is what the failure path writes back.
\<close>

theorem hsolve_failure_keeps_deduction_log:
  "preload (PyStr dead_end_str) init = Inr (0, dead_end)
   \<and> log dead_end = []
   \<and> hsolve sorted_list_of_set 82 dead_end = Inr (False, dead_end\<lparr> log := ''i01 '' \<rparr>)
   \<and> log (dead_end\<lparr> log := ''i01 '' \<rparr>) \<noteq> log dead_end"
  using dead_end_preload hsolve_dead_end by (simp add: dead_end_def)

text \<open>
  C8 fails on the code. A string is converted only if it has 81 characters, and any other
  string is turned down with the result \<open>-1\<close> and no change; but a list is loaded
  whatever its length is. The list \<open>[5]\<close> is accepted with the result \<open>0\<close>, and the board
  has changed.
\<close>

theorem preload_list_length_unchecked:
  "preload (PyList [5]) init =
     Inr (0, init\<lparr> board := (board init)[0 := 5],
                   rows := (rows init)[0 := {1, 2, 3, 4, 6, 7, 8, 9}],
                   cols := (cols init)[0 := {1, 2, 3, 4, 6, 7, 8, 9}],
                   boxes := (boxes init)[0 := {1, 2, 3, 4, 6, 7, 8, 9}] \<rparr>)
   \<and> preload (PyStr ''5'') init = Inr (- 1, init)"
  by code_simp

text \<open>
  The deduction passes at work: on the board \<open>dead_end\<close>, square 80 is a naked single
  and, in row 8, a hidden single.
\<close>

lemma dead_end_singles:
  "card (get_sq_options 80 dead_end) = 1" "board dead_end ! 80 = 0"
  "card (sub_opt1 (get_sqs_in_row 8) 80 dead_end) = 1"
  by code_simp+

theorem deduction_fills_legal_witness:
  "iter_ok sorted_list_of_set \<and> well_formed dead_end \<and> (80::nat) < 81
   \<and> card (get_sq_options 80 dead_end) = 1
   \<and> board dead_end ! 80 = 0 \<and> card (sub_opt1 (get_sqs_in_row 8) 80 dead_end) = 1
   \<and> pop sorted_list_of_set (get_sq_options 80 dead_end)
         \<in> rows dead_end ! get_row 80 \<inter> cols dead_end ! get_col 80 \<inter> boxes dead_end ! get_box 80
   \<and> pop sorted_list_of_set (sub_opt1 (get_sqs_in_row 8) 80 dead_end)
         \<in> rows dead_end ! get_row 80 \<inter> cols dead_end ! get_col 80 \<inter> boxes dead_end ! get_box 80
   \<and> (\<exists>n s'. intersect sorted_list_of_set dead_end = Inr (n, s') \<and> well_formed s')
   \<and> (\<exists>n s'. subtract sorted_list_of_set dead_end = Inr (n, s') \<and> well_formed s')"
proof -
  note t = deduction_fills_legal [OF iter_ok_sorted dead_end_well_formed]
  have l: "(80::nat) < 81" by simp
  from t have "pop sorted_list_of_set (get_sq_options 80 dead_end)
         \<in> rows dead_end ! get_row 80 \<inter> cols dead_end ! get_col 80 \<inter> boxes dead_end ! get_box 80"
    using l dead_end_singles(1) by blast
  moreover from t have "pop sorted_list_of_set (sub_opt1 (get_sqs_in_row 8) 80 dead_end)
         \<in> rows dead_end ! get_row 80 \<inter> cols dead_end ! get_col 80 \<inter> boxes dead_end ! get_box 80"
    using l dead_end_singles(2,3) by blast
  moreover from t have "\<exists>n s'. intersect sorted_list_of_set dead_end = Inr (n, s') \<and> well_formed s'"
    by blast
  moreover from t have "\<exists>n s'. subtract sorted_list_of_set dead_end = Inr (n, s') \<and> well_formed s'"
    by blast
  ultimately show ?thesis
    using iter_ok_sorted dead_end_well_formed dead_end_singles l by blast
qed

section \<open>The deduction loops of hsolve stop\<close>

lemma keeps_fill_count:
  assumes k: "keeps s0 s" and i: "i < 81" and v: "v \<in> get_sq_options i s"
  shows "\<exists>c s'. fill i v s = Inr (c, s') \<and> keeps s0 s'
           \<and> length (get_opens s') < length (get_opens s)"
proof -
  have wf: "well_formed s" using k unfolding keeps_def by simp
  note r = option_range [OF wf i v]
  obtain c s' where s': "fill i v s = Inr (c, s')" "keeps s0 s'" "board s' = (board s)[i := v]"
    using keeps_fill [OF k i v] by blast
  have "length (get_opens s') < length (get_opens s)"
    using opens_decrease [OF s'(3) r(1) i r(2)] well_formedD(1) [OF wf] by simp
  then show ?thesis using s' by blast
qed

lemma intersect_body_counted:
  assumes en: "iter_ok en" and c: "counted s0 st" and i: "i < 81"
  shows "\<exists>st'. intersect_body en i st = Inr st' \<and> counted s0 st'"
proof -
  obtain n s where st: "st = (n, s)" by (cases st)
  have k: "keeps s0 s" and l: "length (get_opens s) + n \<le> length (get_opens s0)"
    using c unfolding counted_def st by simp_all
  show ?thesis
  proof (cases "card (get_sq_options i s) = 1")
    case True
    from keeps_fill_count [OF k i pop_member [OF en True]] True l show ?thesis
      unfolding intersect_body_def st counted_def by (auto simp: Let_def)
  next
    case False
    then show ?thesis using c unfolding intersect_body_def st by (simp add: Let_def)
  qed
qed

lemma intersect_counted:
  assumes en: "iter_ok en" and k: "keeps s0 s"
  shows "\<exists>n s'. intersect en s = Inr (n, s') \<and> keeps s0 s'
           \<and> length (get_opens s') + n \<le> length (get_opens s)"
proof -
  have wf: "well_formed s" using k unfolding keeps_def by simp
  have "\<exists>st'. for_each [0 ..< 81] (intersect_body en) (0, s) = Inr st' \<and> counted s st'"
  proof (rule for_each_total [where P = "counted s"])
    fix x :: nat and st :: "nat \<times> sudoku"
    assume "x \<in> set [0 ..< 81]" "counted s st"
    then show "\<exists>st'. intersect_body en x st = Inr st' \<and> counted s st'"
      using intersect_body_counted [OF en, of s st x] by simp
  qed (simp add: counted_def keeps_refl [OF wf])
  then obtain n s' where r: "intersect en s = Inr (n, s')" "counted s (n, s')"
    unfolding intersect_def by (metis surj_pair)
  have "keeps s0 s'"
    using r(2) k extends_trans [of "board s0" "board s" "board s'"]
    unfolding counted_def keeps_def by simp
  then show ?thesis using r unfolding counted_def by auto
qed

lemma sub_factor_body_counted:
  assumes en: "iter_ok en" and c: "counted s0 st" and i: "sq1 < 81"
  shows "\<exists>st'. sub_factor_body en squares sq1 st = Inr st' \<and> counted s0 st'"
proof -
  obtain n s where st: "st = (n, s)" by (cases st)
  have k: "keeps s0 s" and l: "length (get_opens s) + n \<le> length (get_opens s0)"
    using c unfolding counted_def st by simp_all
  show ?thesis
  proof (cases "board s ! sq1 = 0 \<and> card (sub_opt1 squares sq1 s) = 1")
    case True
    then have "pop en (sub_opt1 squares sq1 s) \<in> get_sq_options sq1 s"
      using pop_member [OF en] sub_opt1_subset by blast
    from keeps_fill_count [OF k i this] True l show ?thesis
      unfolding sub_factor_body_def st counted_def by (auto simp: Let_def)
  next
    case False
    then show ?thesis using c unfolding sub_factor_body_def st by (auto simp: Let_def)
  qed
qed

lemma add_sub_factor_counted:
  assumes en: "iter_ok en" and c: "counted s0 st" and sqs: "set squares \<subseteq> {..< 81}"
  shows "\<exists>st'. add_sub_factor en squares st = Inr st' \<and> counted s0 st'"
proof -
  obtain n s where st: "st = (n, s)" by (cases st)
  have k: "keeps s0 s" and l: "length (get_opens s) + n \<le> length (get_opens s0)"
    using c unfolding counted_def st by simp_all
  have wf: "well_formed s" using k unfolding keeps_def by simp
  have "\<exists>st'. for_each squares (sub_factor_body en squares) (0, s) = Inr st' \<and> counted s st'"
  proof (rule for_each_total [where P = "counted s"])
    fix x :: nat and st :: "nat \<times> sudoku"
    assume "x \<in> set squares" "counted s st"
    then show "\<exists>st'. sub_factor_body en squares x st = Inr st' \<and> counted s st'"
      using sub_factor_body_counted [OF en, of s st x squares] sqs by auto
  qed (simp add: counted_def keeps_refl [OF wf])
  then obtain m s' where r: "sub_factor en squares s = Inr (m, s')" "counted s (m, s')"
    unfolding sub_factor_def by (metis surj_pair)
  have "keeps s0 s'"
    using r(2) k extends_trans [of "board s0" "board s" "board s'"]
    unfolding counted_def keeps_def by simp
  then have "counted s0 (n + m, s')" using r(2) l unfolding counted_def by simp
  then show ?thesis using r(1) unfolding add_sub_factor_def st by simp
qed

lemma subtract_counted:
  assumes en: "iter_ok en" and k: "keeps s0 s"
  shows "\<exists>n s'. subtract en s = Inr (n, s') \<and> keeps s0 s'
           \<and> length (get_opens s') + n \<le> length (get_opens s)"
proof -
  have wf: "well_formed s" using k unfolding keeps_def by simp
  have pass: "\<exists>st'. for_each [0 ..< 9] (\<lambda>u. add_sub_factor en (sqs u)) st = Inr st' \<and> counted s st'"
    if "counted s st" "\<And>k. k < 9 \<Longrightarrow> set (sqs k) \<subseteq> {..< 81}" for st sqs
  proof (rule for_each_total [where P = "counted s"])
    fix x :: nat and st :: "nat \<times> sudoku"
    assume "x \<in> set [0 ..< 9]" "counted s st"
    then show "\<exists>st'. add_sub_factor en (sqs x) st = Inr st' \<and> counted s st'"
      using add_sub_factor_counted [OF en, of s st "sqs x"] that(2) [of x] by simp
  qed (rule that(1))
  have c0: "counted s (0, s)" by (simp add: counted_def keeps_refl [OF wf])
  obtain st1 where 1: "for_each [0 ..< 9] (\<lambda>box. add_sub_factor en (get_sqs_in_box box)) (0, s) = Inr st1"
      "counted s st1"
    using pass [OF c0, of get_sqs_in_box] units_in_range(3) by blast
  obtain st2 where 2: "for_each [0 ..< 9] (\<lambda>row. add_sub_factor en (get_sqs_in_row row)) st1 = Inr st2"
      "counted s st2"
    using pass [OF 1(2), of get_sqs_in_row] units_in_range(1) by blast
  obtain st3 where 3: "for_each [0 ..< 9] (\<lambda>col. add_sub_factor en (get_sqs_in_col col)) st2 = Inr st3"
      "counted s st3"
    using pass [OF 2(2), of get_sqs_in_col] units_in_range(2) by blast
  obtain n s' where st3: "st3 = (n, s')" by (cases st3)
  have r: "subtract en s = Inr (n, s')" unfolding subtract_def using 1 2 3 st3 by simp
  have "keeps s0 s'"
    using 3(2) k extends_trans [of "board s0" "board s" "board s'"]
    unfolding counted_def keeps_def st3 by simp
  then show ?thesis using r 3(2) unfolding counted_def st3 by auto
qed

lemma until_zero_returns:
  assumes pass: "\<And>s. keeps s0 s \<Longrightarrow> \<exists>n s'. pass s = Inr (n, s') \<and> keeps s0 s'
                    \<and> length (get_opens s') + n \<le> length (get_opens s)"
    and k: "keeps s0 s" and f: "length (get_opens s) < fuel"
  shows "\<exists>t' s'. until_zero fuel pass t s = Inr (t', s') \<and> keeps s0 s'"
  using k f
proof (induction fuel arbitrary: t s)
  case 0
  then show ?case by simp
next
  case (Suc fuel)
  from pass [OF Suc.prems(1)] obtain n s1 where s1: "pass s = Inr (n, s1)" "keeps s0 s1"
    "length (get_opens s1) + n \<le> length (get_opens s)" by blast
  show ?case
  proof (cases "n = 0")
    case True
    then show ?thesis using s1 by simp
  next
    case False
    then have "length (get_opens s1) < fuel" using s1(3) Suc.prems(2) by simp
    from Suc.IH [OF s1(2) this, of "t + n"] show ?thesis using s1(1) False by simp
  qed
qed

section \<open>hsolve returns\<close>

lemma get_opens_board: "board a = board b \<Longrightarrow> get_opens a = get_opens b"
  unfolding get_opens_def by simp

lemma get_sq_options_log [simp]: "get_sq_options sq (s\<lparr> log := l \<rparr>) = get_sq_options sq s"
  unfolding get_sq_options_def by simp

lemma get_opens_log [simp]: "get_opens (s\<lparr> log := l \<rparr>) = get_opens s"
  unfolding get_opens_def by simp

lemma same_board_options:
  assumes "well_formed a" "well_formed b" "board a = board b"
  shows "get_sq_options sq a = get_sq_options sq b"
proof -
  have "a\<lparr> log := log b \<rparr> = b"
    by (rule well_formed_board_eq) (simp_all add: assms)
  then have "get_sq_options sq (a\<lparr> log := log b \<rparr>) = get_sq_options sq b" by simp
  then show ?thesis by simp
qed

lemma extends_opens_le:
  assumes "extends (board s) (board s')"
  shows "length (get_opens s') \<le> length (get_opens s)"
proof -
  have "{i. i < 81 \<and> board s' ! i = 0} \<subseteq> {i. i < 81 \<and> board s ! i = 0}"
    using assms unfolding extends_def by auto
  then show ?thesis unfolding length_get_opens by (intro card_mono) simp_all
qed

lemma try_values_returns:
  assumes total: "\<And>s1. well_formed s1 \<Longrightarrow> length (get_opens s1) < N \<Longrightarrow> \<exists>ok s'. rec s1 = Inr (ok, s')"
    and restore: "\<And>s1 s'. well_formed s1 \<Longrightarrow> rec s1 = Inr (False, s')
                    \<Longrightarrow> well_formed s' \<and> board s' = board s1"
    and sq: "sq < 81"
    and wf: "well_formed s" and n: "length (get_opens s) \<le> N"
    and vs: "set vs \<subseteq> get_sq_options sq s"
  shows "\<exists>ok s'. try_values rec sq vs s = Inr (ok, s')"
  using wf n vs
proof (induction vs arbitrary: s)
  case Nil
  show ?case by (intro exI [of _ False] exI [of _ s]) simp
next
  case (Cons v vs)
  note wf = Cons.prems(1)
  have v: "v \<in> get_sq_options sq s" using Cons.prems(3) by simp
  note r = option_range [OF wf sq v]
  obtain c1 s1 where s1: "fill sq v s = Inr (c1, s1)" "well_formed s1"
      "board s1 = (board s)[sq := v]"
    using fill_empty_well_formed [OF wf sq r(2) v] by blast
  have "length (get_opens s1) < length (get_opens s)"
    using opens_decrease [OF s1(3) r(1) sq r(2)] well_formedD(1) [OF wf] by simp
  then have "length (get_opens s1) < N" using Cons.prems(2) by simp
  from total [OF s1(2) this] obtain ok s2 where s2: "rec s1 = Inr (ok, s2)" by blast
  show ?case
  proof (cases ok)
    case True
    then show ?thesis using s1(1) s2 by (intro exI [of _ True] exI [of _ s2]) simp
  next
    case False
    then have w2: "well_formed s2" "board s2 = board s1" using restore [OF s1(2)] s2 by simp_all
    obtain s3 where s3: "unfill sq s2 = Inr s3" "well_formed s3" "board s3 = (board s2)[sq := 0]"
      using unfill_well_formed [OF w2(1) sq] by blast
    have b3: "board s3 = board s" using s3(3) w2(2) s1(3) update_zero_id [OF r(2)] by simp
    have "length (get_opens s3) \<le> N" using get_opens_board [OF b3] Cons.prems(2) by simp
    moreover have "set vs \<subseteq> get_sq_options sq s3"
      using same_board_options [OF s3(2) wf b3] Cons.prems(3) by simp
    ultimately have "\<exists>ok s'. try_values rec sq vs s3 = Inr (ok, s')"
      using Cons.IH [OF s3(2)] by simp
    then show ?thesis using s1(1) s2 False s3(1) by simp
  qed
qed

lemma unwind_returns:
  assumes "well_formed s" "set xs \<subseteq> {..< 81}"
  shows "\<exists>s'. for_each xs unfill s = Inr s' \<and> well_formed s'"
proof (rule for_each_total [where P = well_formed])
  fix x :: nat and st :: sudoku
  assume "x \<in> set xs" "well_formed st"
  then show "\<exists>st'. unfill x st = Inr st' \<and> well_formed st'"
    using unfill_well_formed [of st x] assms(2) by auto
qed (rule assms(1))

lemma hsolve_returns_fuel:
  assumes en: "iter_ok en"
  shows "well_formed s \<Longrightarrow> length (get_opens s) < fuel \<Longrightarrow> \<exists>ok s'. hsolve en fuel s = Inr (ok, s')"
proof (induction fuel arbitrary: s)
  case 0
  then show ?case by simp
next
  case (Suc fuel)
  note wf = Suc.prems(1)
  note [simp del] = until_zero.simps
  show ?case
  proof (cases "length (get_opens s) = 0")
    case True
    then show ?thesis by (intro exI [of _ True] exI [of _ s]) simp
  next
    case ne: False
    obtain t sa where a: "until_zero (Suc fuel) (intersect en) 0 s = Inr (t, sa)" "keeps s sa"
      using until_zero_returns [OF intersect_counted [OF en] keeps_refl [OF wf] Suc.prems(2)]
      by blast
    let ?sa = "add_log ''i'' t sa"
    have wa: "well_formed ?sa" using a(2) unfolding keeps_def by simp
    have la: "length (get_opens ?sa) \<le> length (get_opens s)"
      using extends_opens_le [of s ?sa] a(2) unfolding keeps_def by simp
    then have "length (get_opens ?sa) < Suc fuel" using Suc.prems(2) by simp
    from until_zero_returns [OF subtract_counted [OF en] keeps_refl [OF wa] this]
    obtain t' sb where b: "until_zero (Suc fuel) (subtract en) 0 ?sa = Inr (t', sb)" "keeps ?sa sb"
      by blast
    let ?sc = "add_log ''s'' t' sb"
    have wc: "well_formed ?sc" using b(2) unfolding keeps_def by simp
    have "length (get_opens ?sc) \<le> length (get_opens ?sa)"
      using extends_opens_le [of ?sa ?sc] b(2) unfolding keeps_def by simp
    then have lc: "length (get_opens ?sc) \<le> fuel" using la Suc.prems(2) by simp
    show ?thesis
    proof (cases "get_opens_by_dof True ?sc")
      case Nil
      then show ?thesis using ne a(1) b(1)
        by (intro exI [of _ True] exI [of _ ?sc]) (simp add: Let_def)
    next
      case (Cons sq rest)
      then have "sq \<in> set (get_opens_by_dof True ?sc)" by simp
      then have "sq \<in> set (get_opens ?sc)" unfolding set_get_opens_by_dof .
      then have sq: "sq < 81" "board ?sc ! sq = 0" unfolding set_get_opens by simp_all
      let ?rec = "\<lambda>s1. hsolve en fuel (s1\<lparr> log := log ?sc @ ''_r_ '' \<rparr>)"
      have total: "\<exists>ok s'. ?rec s1 = Inr (ok, s')"
        if "well_formed s1" "length (get_opens s1) < fuel" for s1
        using Suc.IH [of "s1\<lparr> log := log ?sc @ ''_r_ '' \<rparr>"] that by simp
      have restore: "well_formed s2 \<and> board s2 = board s1"
        if "well_formed s1" "?rec s1 = Inr (False, s2)" for s1 s2
        using hsolve_restore [OF en, of "s1\<lparr> log := log ?sc @ ''_r_ '' \<rparr>" fuel s2] that by simp
      have "get_sq_options sq ?sc \<subseteq> {1..9}"
        using cands_mem [OF fam_units(1) well_formedD(6) [OF wc] sq(1)] sq
        by (auto simp: get_sq_options_def rcb_split)
      then have "finite (get_sq_options sq ?sc)" using finite_subset by blast
      then have vs: "set (en (get_sq_options sq ?sc)) \<subseteq> get_sq_options sq ?sc"
        using en unfolding iter_ok_def by simp
      obtain ok sd where d: "try_values ?rec sq (en (get_sq_options sq ?sc)) ?sc = Inr (ok, sd)"
        using try_values_returns [of fuel ?rec, OF total restore sq(1) wc lc vs] by blast
      show ?thesis
      proof (cases ok)
        case True
        then show ?thesis using ne a(1) b(1) Cons d
          by (intro exI [of _ True] exI [of _ sd]) (simp add: Let_def)
      next
        case False
        then have sd: "well_formed sd"
          using try_values_restore [of ?rec, OF restore wc sq] d by simp
        let ?se = "sd\<lparr> log := log ?sc \<rparr>"
        let ?unwind = "set (get_opens s) - set (get_opens ?se)"
        have "finite ?unwind" by simp
        then have "set (en ?unwind) = ?unwind" using en unfolding iter_ok_def by blast
        then have "set (en ?unwind) \<subseteq> {..< 81}" unfolding set_get_opens by auto
        moreover have "well_formed ?se" using sd by simp
        ultimately obtain sf where "for_each (en ?unwind) unfill ?se = Inr sf"
          using unwind_returns by blast
        then show ?thesis using ne a(1) b(1) Cons d False
          by (intro exI [of _ False] exI [of _ sf]) (simp add: Let_def)
      qed
    qed
  qed
qed

text \<open>
  Like \<open>solve\<close>, \<open>hsolve\<close> returns on every well-formed board: a budget of 82 is
  enough for each of its loops and for the depth of its recursion.
\<close>

lemma hsolve_returns:
  assumes "iter_ok en" "well_formed s"
  shows "\<exists>ok s'. hsolve en 82 s = Inr (ok, s')"
proof -
  have "length (get_opens s) < 82" using length_get_opens_le [of s] by simp
  then show ?thesis using hsolve_returns_fuel [OF assms] by simp
qed

end
